theory Spec2Isabelle
  imports Complex_Main
begin

section \<open>Values of type float64\<close>

text \<open>
  A Go \<open>float64\<close> is either a finite number, one of the two infinities, or NaN. The
  embedding keeps the three special values and the IEEE 754 rules that produce and
  propagate them (division by zero, \<open>0/0\<close>, \<open>Inf - Inf\<close>, \<open>0 * Inf\<close>, comparisons with
  NaN are false). On finite values the arithmetic is exact: rounding, overflow to an
  infinity and underflow to zero are abstracted. \<open>float64\<close> has one zero, which behaves
  as \<open>+0\<close>; the sign of zero is added in \<open>signed64\<close> below.
\<close>

datatype float64 = Fin real | PInf | NInf | NaN

instantiation float64 :: "{zero, one, plus, uminus, minus, times, inverse, abs, ord}"
begin

definition zero_float64 :: float64 where
  "zero_float64 = Fin 0"

definition one_float64 :: float64 where
  "one_float64 = Fin 1"

fun plus_float64 :: "float64 \<Rightarrow> float64 \<Rightarrow> float64" where
  "plus_float64 NaN b = NaN"
| "plus_float64 a NaN = NaN"
| "plus_float64 PInf NInf = NaN"
| "plus_float64 NInf PInf = NaN"
| "plus_float64 PInf b = PInf"
| "plus_float64 a PInf = PInf"
| "plus_float64 NInf b = NInf"
| "plus_float64 a NInf = NInf"
| "plus_float64 (Fin x) (Fin y) = Fin (x + y)"

fun uminus_float64 :: "float64 \<Rightarrow> float64" where
  "uminus_float64 (Fin x) = Fin (- x)"
| "uminus_float64 PInf = NInf"
| "uminus_float64 NInf = PInf"
| "uminus_float64 NaN = NaN"

definition minus_float64 :: "float64 \<Rightarrow> float64 \<Rightarrow> float64" where
  "minus_float64 a b = a + (- b)"

fun times_float64 :: "float64 \<Rightarrow> float64 \<Rightarrow> float64" where
  "times_float64 NaN b = NaN"
| "times_float64 a NaN = NaN"
| "times_float64 (Fin x) (Fin y) = Fin (x * y)"
| "times_float64 (Fin x) PInf = (if x = 0 then NaN else if 0 < x then PInf else NInf)"
| "times_float64 (Fin x) NInf = (if x = 0 then NaN else if 0 < x then NInf else PInf)"
| "times_float64 PInf (Fin y) = (if y = 0 then NaN else if 0 < y then PInf else NInf)"
| "times_float64 NInf (Fin y) = (if y = 0 then NaN else if 0 < y then NInf else PInf)"
| "times_float64 PInf PInf = PInf"
| "times_float64 PInf NInf = NInf"
| "times_float64 NInf PInf = NInf"
| "times_float64 NInf NInf = PInf"

fun divide_float64 :: "float64 \<Rightarrow> float64 \<Rightarrow> float64" where
  "divide_float64 NaN b = NaN"
| "divide_float64 a NaN = NaN"
| "divide_float64 (Fin x) (Fin y) =
     (if y \<noteq> 0 then Fin (x / y)
      else if 0 < x then PInf else if x < 0 then NInf else NaN)"
| "divide_float64 (Fin x) PInf = Fin 0"
| "divide_float64 (Fin x) NInf = Fin 0"
| "divide_float64 PInf (Fin y) = (if 0 \<le> y then PInf else NInf)"
| "divide_float64 NInf (Fin y) = (if 0 \<le> y then NInf else PInf)"
| "divide_float64 PInf b = NaN"
| "divide_float64 NInf b = NaN"

definition inverse_float64 :: "float64 \<Rightarrow> float64" where
  "inverse_float64 a = divide (Fin 1) a"

fun abs_float64 :: "float64 \<Rightarrow> float64" where
  "abs_float64 (Fin x) = Fin \<bar>x\<bar>"
| "abs_float64 PInf = PInf"
| "abs_float64 NInf = PInf"
| "abs_float64 NaN = NaN"

fun less_float64 :: "float64 \<Rightarrow> float64 \<Rightarrow> bool" where
  "less_float64 NaN b = False"
| "less_float64 a NaN = False"
| "less_float64 (Fin x) (Fin y) = (x < y)"
| "less_float64 a NInf = False"
| "less_float64 NInf b = True"
| "less_float64 PInf b = False"
| "less_float64 a PInf = True"

fun less_eq_float64 :: "float64 \<Rightarrow> float64 \<Rightarrow> bool" where
  "less_eq_float64 NaN b = False"
| "less_eq_float64 a NaN = False"
| "less_eq_float64 (Fin x) (Fin y) = (x \<le> y)"
| "less_eq_float64 NInf b = True"
| "less_eq_float64 a PInf = True"
| "less_eq_float64 a NInf = False"
| "less_eq_float64 PInf b = False"

instance ..

end

text \<open>\<open>math.IsInf(f, sign)\<close>: with \<open>sign > 0\<close> whether \<open>f\<close> is \<open>+Inf\<close>, with \<open>sign < 0\<close>
  whether it is \<open>-Inf\<close>, with \<open>sign = 0\<close> whether it is either.\<close>

definition IsInf :: "float64 \<Rightarrow> int \<Rightarrow> bool" where
  "IsInf f sign = ((0 \<le> sign \<and> f = PInf) \<or> (sign \<le> 0 \<and> f = NInf))"

section \<open>Values of type float64 with the sign of zero\<close>

text \<open>
  IEEE 754 has two zeros, which compare equal and differ in what a division by them
  gives: \<open>1 / +0 = +Inf\<close> and \<open>1 / -0 = -Inf\<close>. Where a statement depends on that, the
  values are taken in \<open>signed64\<close>: \<open>Val a\<close> is the value \<open>a\<close> of \<open>float64\<close>, its zero
  \<open>Val (Fin 0)\<close> being \<open>+0\<close>, and \<open>NegZero\<close> is \<open>-0\<close>. The operations are those of
  \<open>float64\<close> on the values without the sign of zero, and the IEEE 754 rules for that
  sign: a zero product or quotient is negative when exactly one operand is negative, a
  zero sum is negative only when both terms are the negative zero (rounding to nearest),
  dividing by the negative zero negates what dividing by the positive zero gives, and the
  comparisons do not see the sign of zero.
\<close>

datatype signed64 = Val float64 | NegZero

text \<open>The value without the sign of zero, and the sign bit (\<open>math.Signbit\<close>).\<close>

fun plain :: "signed64 \<Rightarrow> float64" where
  "plain (Val a) = a"
| "plain NegZero = Fin 0"

fun signbit :: "signed64 \<Rightarrow> bool" where
  "signbit NegZero = True"
| "signbit (Val (Fin x)) = (x < 0)"
| "signbit (Val PInf) = False"
| "signbit (Val NInf) = True"
| "signbit (Val NaN) = False"

definition zeroOf :: "bool \<Rightarrow> signed64" where
  "zeroOf negative = (if negative then NegZero else Val (Fin 0))"

instantiation signed64 :: "{zero, one, plus, uminus, minus, times, inverse, abs, ord}"
begin

definition zero_signed64 :: signed64 where
  "zero_signed64 = Val (Fin 0)"

definition one_signed64 :: signed64 where
  "one_signed64 = Val (Fin 1)"

definition plus_signed64 :: "signed64 \<Rightarrow> signed64 \<Rightarrow> signed64" where
  "plus_signed64 a b =
     (if a = NegZero \<and> b = NegZero then NegZero else Val (plain a + plain b))"

fun uminus_signed64 :: "signed64 \<Rightarrow> signed64" where
  "uminus_signed64 NegZero = Val (Fin 0)"
| "uminus_signed64 (Val a) = (if a = Fin 0 then NegZero else Val (- a))"

definition minus_signed64 :: "signed64 \<Rightarrow> signed64 \<Rightarrow> signed64" where
  "minus_signed64 a b = a + (- b)"

definition times_signed64 :: "signed64 \<Rightarrow> signed64 \<Rightarrow> signed64" where
  "times_signed64 a b =
     (if plain a * plain b = Fin 0 then zeroOf (signbit a \<noteq> signbit b)
      else Val (plain a * plain b))"

definition divide_signed64 :: "signed64 \<Rightarrow> signed64 \<Rightarrow> signed64" where
  "divide_signed64 a b =
     (if plain a / plain b = Fin 0 then zeroOf (signbit a \<noteq> signbit b)
      else if b = NegZero then Val (- (plain a / plain b))
      else Val (plain a / plain b))"

definition inverse_signed64 :: "signed64 \<Rightarrow> signed64" where
  "inverse_signed64 a = divide (Val (Fin 1)) a"

fun abs_signed64 :: "signed64 \<Rightarrow> signed64" where
  "abs_signed64 NegZero = Val (Fin 0)"
| "abs_signed64 (Val a) = Val \<bar>a\<bar>"

definition less_signed64 :: "signed64 \<Rightarrow> signed64 \<Rightarrow> bool" where
  "less_signed64 a b = (plain a < plain b)"

definition less_eq_signed64 :: "signed64 \<Rightarrow> signed64 \<Rightarrow> bool" where
  "less_eq_signed64 a b = (plain a \<le> plain b)"

instance ..

end

section \<open>Constants of run.go\<close>

definition tolerance :: float64 where
  "tolerance = Fin 0.005"

section \<open>The convergence check\<close>

text \<open>\<open>checkConvergence\<close> of run.go. The line it prints is not part of its result.\<close>

definition checkConvergence :: "float64 \<Rightarrow> float64 \<Rightarrow> string \<Rightarrow> bool" where
  "checkConvergence newSum oldSum Var =
     (let bias = (newSum - oldSum) / oldSum
      in if \<bar>bias\<bar> > tolerance \<or> IsInf bias 0 then False else True)"


section \<open>The data model\<close>

text \<open>
  The embedded \<open>sync.RWMutex\<close> of a cell: whether a writer holds it and how many readers
  hold it.
\<close>

record RWMutex =
  writer :: bool
  readerCount :: nat

text \<open>Cell geometry is opaque to the model: a polygon is kept as its rings of points.\<close>

type_synonym Polygonal = "(real \<times> real) list list"

text \<open>
  The struct \<open>Cell\<close>, field by field. A neighbour list of the source is a slice of
  pointers to cells; here it is a list of addresses, resolved through a store
  \<open>nat \<Rightarrow> Cell option\<close> in which a missing address stands for a nil pointer. The
  type \<open>'f\<close> of the float64 fields is a parameter of the record: \<open>Cell\<close> is the struct
  over \<open>float64\<close>, and the timestep controller is also read over \<open>signed64\<close>.
\<close>

record 'f Cell_of =
  Polygonal :: Polygonal
  WebMapGeom :: Polygonal
  UAvg :: 'f
  VAvg :: 'f
  WAvg :: 'f
  UDeviation :: 'f
  VDeviation :: 'f
  AOrgPartitioning :: 'f
  BOrgPartitioning :: 'f
  SPartitioning :: 'f
  NOPartitioning :: 'f
  NHPartitioning :: 'f
  SO2oxidation :: 'f
  ParticleWetDep :: 'f
  SO2WetDep :: 'f
  OtherGasWetDep :: 'f
  ParticleDryDep :: 'f
  NH3DryDep :: 'f
  SO2DryDep :: 'f
  VOCDryDep :: 'f
  NOxDryDep :: 'f
  Kzz :: 'f
  KzzAbove :: "'f list"
  KzzBelow :: "'f list"
  Kxxyy :: 'f
  KyySouth :: "'f list"
  KyyNorth :: "'f list"
  KxxWest :: "'f list"
  KxxEast :: "'f list"
  M2u :: 'f
  M2d :: 'f
  PopData :: "string \<Rightarrow> 'f option"
  MortalityRate :: 'f
  Dx :: 'f
  Dy :: 'f
  Dz :: 'f
  Volume :: 'f
  Row :: int
  Ci :: "'f list"
  Cf :: "'f list"
  emisFlux :: "'f list"
  West :: "nat list"
  East :: "nat list"
  South :: "nat list"
  North :: "nat list"
  Below :: "nat list"
  Above :: "nat list"
  GroundLevel :: "nat list"
  Boundary :: bool
  WestFrac :: "'f list"
  EastFrac :: "'f list"
  NorthFrac :: "'f list"
  SouthFrac :: "'f list"
  AboveFrac :: "'f list"
  BelowFrac :: "'f list"
  GroundLevelFrac :: "'f list"
  DxPlusHalf :: "'f list"
  DxMinusHalf :: "'f list"
  DyPlusHalf :: "'f list"
  DyMinusHalf :: "'f list"
  DzPlusHalf :: "'f list"
  DzMinusHalf :: "'f list"
  Layer :: int
  LayerHeight :: 'f
  Temperature :: 'f
  WindSpeed :: 'f
  WindSpeedInverse :: 'f
  WindSpeedMinusThird :: 'f
  WindSpeedMinusOnePointFour :: 'f
  S1 :: 'f
  SClass :: 'f
  TotalPM25 :: 'f
  RWMutex :: RWMutex
  index :: "(int \<times> int) list"
  aboveDensityThreshold :: bool

type_synonym Cell = "float64 Cell_of"

text \<open>The zero value of the struct, as \<open>new(Cell)\<close> returns it.\<close>

definition newCell :: Cell where
  "newCell = \<lparr>
     Polygonal = [], WebMapGeom = [],
     UAvg = Fin 0, VAvg = Fin 0, WAvg = Fin 0, UDeviation = Fin 0, VDeviation = Fin 0,
     AOrgPartitioning = Fin 0, BOrgPartitioning = Fin 0, SPartitioning = Fin 0,
     NOPartitioning = Fin 0, NHPartitioning = Fin 0, SO2oxidation = Fin 0,
     ParticleWetDep = Fin 0, SO2WetDep = Fin 0, OtherGasWetDep = Fin 0,
     ParticleDryDep = Fin 0,
     NH3DryDep = Fin 0, SO2DryDep = Fin 0, VOCDryDep = Fin 0, NOxDryDep = Fin 0,
     Kzz = Fin 0, KzzAbove = [], KzzBelow = [], Kxxyy = Fin 0,
     KyySouth = [], KyyNorth = [], KxxWest = [], KxxEast = [],
     M2u = Fin 0, M2d = Fin 0,
     PopData = (\<lambda>k. None), MortalityRate = Fin 0,
     Dx = Fin 0, Dy = Fin 0, Dz = Fin 0, Volume = Fin 0, Row = 0,
     Ci = [], Cf = [], emisFlux = [],
     West = [], East = [], South = [], North = [], Below = [], Above = [],
     GroundLevel = [], Boundary = False,
     WestFrac = [], EastFrac = [], NorthFrac = [], SouthFrac = [],
     AboveFrac = [], BelowFrac = [], GroundLevelFrac = [],
     DxPlusHalf = [], DxMinusHalf = [], DyPlusHalf = [], DyMinusHalf = [],
     DzPlusHalf = [], DzMinusHalf = [],
     Layer = 0, LayerHeight = Fin 0,
     Temperature = Fin 0, WindSpeed = Fin 0, WindSpeedInverse = Fin 0,
     WindSpeedMinusThird = Fin 0, WindSpeedMinusOnePointFour = Fin 0,
     S1 = Fin 0, SClass = Fin 0,
     TotalPM25 = Fin 0,
     RWMutex = \<lparr>writer = False, readerCount = 0\<rparr>,
     index = [], aboveDensityThreshold = False\<rparr>"

text \<open>
  The struct \<open>InMAPdata\<close>, without its spatial indexes, projection and description
  tables. \<open>Cells\<close> holds the cells themselves in the order of the slice (run.go calls
  the same slice \<open>Data\<close>): the functions modelled here follow each pointer of the slice
  once, in order.
\<close>

record 'f InMAPdata_of =
  Cells :: "'f Cell_of list"
  Dt :: 'f
  Nlayers :: int
  NumIterations :: int
  westBoundary :: "'f Cell_of list"
  eastBoundary :: "'f Cell_of list"
  northBoundary :: "'f Cell_of list"
  southBoundary :: "'f Cell_of list"
  topBoundary :: "'f Cell_of list"

type_synonym InMAPdata = "float64 InMAPdata_of"

text \<open>The ways the modelled functions can panic.\<close>

datatype panic =
    UnknownEmissionsPollutant string
  | UnknownVariable string
  | IndexOutOfRange
  | NilPointerDereference
  | ReflectFloatOnZeroValue
  | ReflectFloatOnNonFloat
  | RUnlockOfUnlockedRWMutex

text \<open>A panic ends the computation; a result is passed on.\<close>

fun bind_panic :: "panic + 'a \<Rightarrow> ('a \<Rightarrow> panic + 'b) \<Rightarrow> panic + 'b" where
  "bind_panic (Inl err) f = Inl err"
| "bind_panic (Inr x) f = f x"

section \<open>Helpers that are not among the source files\<close>

text \<open>
  Modelled from the spec: the package's helper \<open>max\<close>, called by \<open>setTstepCFL\<close> with
  three arguments, is not among the source files. The spec reads it as the maximum of
  its arguments ("max(normalized-speed_x, normalized-speed_y, normalized-speed_z)"). It
  is the scan that starts from the first argument and replaces it by each later argument
  that compares greater, with the comparison of float64.
\<close>

definition max_f64 :: "'a::ord \<Rightarrow> 'a list \<Rightarrow> 'a" where
  "max_f64 v vals = foldl (\<lambda>m x. if x > m then x else m) v vals"

text \<open>
  Modelled from the spec: the package's helper \<open>amin\<close>, called by \<open>setTstepCFL\<close> with
  four and with five arguments, is not among the source files. The spec reads it as the
  minimum of its arguments ("taking the minimum over all cells and all bounds"). It is
  the scan that starts from the first argument and replaces it by each later argument
  that compares less.
\<close>

definition amin :: "'a::ord \<Rightarrow> 'a list \<Rightarrow> 'a" where
  "amin v vals = foldl (\<lambda>m x. if x < m then x else m) v vals"

text \<open>
  Modelled from the spec: the package's helper \<open>min\<close>, called by \<open>neighborInfo\<close> with two
  arguments, is not among the source files. The spec reads it as the minimum
  ("min(neighbor's cross-axis extent / this cell's same extent, 1)").
\<close>

definition min_f64 :: "float64 \<Rightarrow> float64 \<Rightarrow> float64" where
  "min_f64 v1 v2 = (if v1 < v2 then v1 else v2)"

section \<open>The topology builder\<close>

text \<open>\<open>harmonicMean\<close>: \<open>2. * a * b / (a + b)\<close>, evaluated from the left.\<close>

definition harmonicMean :: "float64 \<Rightarrow> float64 \<Rightarrow> float64" where
  "harmonicMean a b = Fin 2 * a * b / (a + b)"

text \<open>Following every pointer of a neighbour list; a nil pointer panics on first use.\<close>

fun deref :: "(nat \<Rightarrow> Cell option) \<Rightarrow> nat list \<Rightarrow> panic + Cell list" where
  "deref h [] = Inr []"
| "deref h (a # rest) =
     (case h a of
        None \<Rightarrow> Inl NilPointerDereference
      | Some e \<Rightarrow> bind_panic (deref h rest) (\<lambda>es. Inr (e # es)))"

text \<open>
  \<open>neighborInfo\<close>: each of the seven loops fills the arrays of one direction, one entry
  per neighbour, from the cell's own scalars and the neighbour's.
\<close>

definition neighborInfo :: "(nat \<Rightarrow> Cell option) \<Rightarrow> Cell \<Rightarrow> panic + Cell" where
  "neighborInfo h c =
     bind_panic (deref h (East c)) (\<lambda>es.
     bind_panic (deref h (West c)) (\<lambda>ws.
     bind_panic (deref h (North c)) (\<lambda>ns.
     bind_panic (deref h (South c)) (\<lambda>ss.
     bind_panic (deref h (Above c)) (\<lambda>abs.
     bind_panic (deref h (Below c)) (\<lambda>bs.
     bind_panic (deref h (GroundLevel c)) (\<lambda>gs.
      Inr (c\<lparr>
        DxPlusHalf := map (\<lambda>e. (Dx c + Dx e) / Fin 2) es,
        EastFrac := map (\<lambda>e. min_f64 (Dy e / Dy c) (Fin 1)) es,
        KxxEast := map (\<lambda>e. harmonicMean (Kxxyy c) (Kxxyy e)) es,
        DxMinusHalf := map (\<lambda>w. (Dx c + Dx w) / Fin 2) ws,
        WestFrac := map (\<lambda>w. min_f64 (Dy w / Dy c) (Fin 1)) ws,
        KxxWest := map (\<lambda>w. harmonicMean (Kxxyy c) (Kxxyy w)) ws,
        DyPlusHalf := map (\<lambda>n. (Dy c + Dy n) / Fin 2) ns,
        NorthFrac := map (\<lambda>n. min_f64 (Dx n / Dx c) (Fin 1)) ns,
        KyyNorth := map (\<lambda>n. harmonicMean (Kxxyy c) (Kxxyy n)) ns,
        DyMinusHalf := map (\<lambda>s. (Dy c + Dy s) / Fin 2) ss,
        SouthFrac := map (\<lambda>s. min_f64 (Dx s / Dx c) (Fin 1)) ss,
        KyySouth := map (\<lambda>s. harmonicMean (Kxxyy c) (Kxxyy s)) ss,
        DzPlusHalf := map (\<lambda>a. (Dz c + Dz a) / Fin 2) abs,
        AboveFrac := map (\<lambda>a. min_f64 ((Dx a * Dy a) / (Dx c * Dy c)) (Fin 1)) abs,
        KzzAbove := map (\<lambda>a. harmonicMean (Kzz c) (Kzz a)) abs,
        DzMinusHalf := map (\<lambda>b. (Dz c + Dz b) / Fin 2) bs,
        BelowFrac := map (\<lambda>b. min_f64 ((Dx b * Dy b) / (Dx c * Dy c)) (Fin 1)) bs,
        KzzBelow := map (\<lambda>b. harmonicMean (Kzz c) (Kzz b)) bs,
        GroundLevelFrac :=
          map (\<lambda>g. min_f64 ((Dx g * Dy g) / (Dx c * Dy c)) (Fin 1)) gs\<rparr>))))))))"

section \<open>The timestep controller\<close>

definition Cmax :: float64 where
  "Cmax = Fin 1"

text \<open>\<open>math.Pow(3., 0.5)\<close>.\<close>

definition sqrt3 :: float64 where
  "sqrt3 = Fin (sqrt 3)"

text \<open>The four bounds that the body of the loop of \<open>setTstepCFL\<close> computes for a cell.\<close>

definition dt1 :: "Cell \<Rightarrow> float64" where
  "dt1 c = Cmax / sqrt3 /
     max_f64 ((\<bar>UAvg c\<bar> + UDeviation c * Fin 2) / Dx c)
       [(\<bar>VAvg c\<bar> + VDeviation c * Fin 2) / Dy c,
        \<bar>WAvg c\<bar> / Dz c]"

definition dt2 :: "Cell \<Rightarrow> float64" where
  "dt2 c = Cmax * Dz c * Dz c / Fin 2 / Kzz c"

definition dt3 :: "Cell \<Rightarrow> float64" where
  "dt3 c = Cmax * Dx c * Dx c / Fin 2 / Kxxyy c"

definition dt4 :: "Cell \<Rightarrow> float64" where
  "dt4 c = Cmax * Dy c * Dy c / Fin 2 / Kxxyy c"

text \<open>The loop of \<open>setTstepCFL\<close> from index \<open>i\<close> on, threading \<open>d.Dt\<close>.\<close>

fun setTstepCFL_from :: "nat \<Rightarrow> Cell list \<Rightarrow> float64 \<Rightarrow> float64" where
  "setTstepCFL_from i [] dt = dt"
| "setTstepCFL_from i (c # cs) dt =
     setTstepCFL_from (Suc i) cs
       (if i = 0 then amin (dt1 c) [dt2 c, dt3 c, dt4 c]
        else amin dt [dt1 c, dt2 c, dt3 c, dt4 c])"

definition setTstepCFL :: "InMAPdata \<Rightarrow> InMAPdata" where
  "setTstepCFL d = d\<lparr>Dt := setTstepCFL_from 0 (Cells d) (Dt d)\<rparr>"

section \<open>The timestep controller with the sign of zero\<close>

text \<open>
  The struct \<open>Cell\<close> and the struct \<open>InMAPdata\<close> over \<open>signed64\<close>, and \<open>setTstepCFL\<close> read
  over them: the same expressions as above, with the operations of \<open>signed64\<close>.
\<close>

type_synonym Cell_signed = "signed64 Cell_of"

type_synonym InMAPdata_signed = "signed64 InMAPdata_of"

definition dt1_signed :: "Cell_signed \<Rightarrow> signed64" where
  "dt1_signed c = Val Cmax / Val sqrt3 /
     max_f64 ((\<bar>UAvg c\<bar> + UDeviation c * Val (Fin 2)) / Dx c)
       [(\<bar>VAvg c\<bar> + VDeviation c * Val (Fin 2)) / Dy c,
        \<bar>WAvg c\<bar> / Dz c]"

definition dt2_signed :: "Cell_signed \<Rightarrow> signed64" where
  "dt2_signed c = Val Cmax * Dz c * Dz c / Val (Fin 2) / Kzz c"

definition dt3_signed :: "Cell_signed \<Rightarrow> signed64" where
  "dt3_signed c = Val Cmax * Dx c * Dx c / Val (Fin 2) / Kxxyy c"

definition dt4_signed :: "Cell_signed \<Rightarrow> signed64" where
  "dt4_signed c = Val Cmax * Dy c * Dy c / Val (Fin 2) / Kxxyy c"

fun setTstepCFL_signed_from :: "nat \<Rightarrow> Cell_signed list \<Rightarrow> signed64 \<Rightarrow> signed64" where
  "setTstepCFL_signed_from i [] dt = dt"
| "setTstepCFL_signed_from i (c # cs) dt =
     setTstepCFL_signed_from (Suc i) cs
       (if i = 0 then amin (dt1_signed c) [dt2_signed c, dt3_signed c, dt4_signed c]
        else amin dt [dt1_signed c, dt2_signed c, dt3_signed c, dt4_signed c])"

definition setTstepCFL_signed :: "InMAPdata_signed \<Rightarrow> InMAPdata_signed" where
  "setTstepCFL_signed d = d\<lparr>Dt := setTstepCFL_signed_from 0 (Cells d) (Dt d)\<rparr>"

section \<open>Constants and tables of run.go\<close>

text \<open>
  Chemical mass conversions. They are untyped constants of the source, computed exactly
  and converted to float64 where they are used.
\<close>

definition mwNOx :: real where "mwNOx = 46.0055"
definition mwN :: real where "mwN = 14.0067"
definition mwNO3 :: real where "mwNO3 = 62.00501"
definition mwNH3 :: real where "mwNH3 = 17.03056"
definition mwNH4 :: real where "mwNH4 = 18.03851"
definition mwS :: real where "mwS = 32.0655"
definition mwSO2 :: real where "mwSO2 = 64.0644"
definition mwSO4 :: real where "mwSO4 = 96.0632"
definition NOxToN :: real where "NOxToN = mwN / mwNOx"
definition NtoNO3 :: real where "NtoNO3 = mwNO3 / mwN"
definition SOxToS :: real where "SOxToS = mwSO2 / mwS"
definition StoSO4 :: real where "StoSO4 = mwS / mwSO4"
definition NH3ToN :: real where "NH3ToN = mwN / mwNH3"
definition NtoNH4 :: real where "NtoNH4 = mwNH4 / mwN"


text \<open>Indices of the individual pollutants in the concentration arrays.\<close>

definition igOrg :: nat where "igOrg = 0"
definition ipOrg :: nat where "ipOrg = 1"
definition iPM2_5 :: nat where "iPM2_5 = 2"
definition igNH :: nat where "igNH = 3"
definition ipNH :: nat where "ipNH = 4"
definition igS :: nat where "igS = 5"
definition ipS :: nat where "ipS = 6"
definition igNO :: nat where "igNO = 7"
definition ipNO :: nat where "ipNO = 8"


definition emisLabels :: "string \<Rightarrow> nat option" where
  "emisLabels = map_of
     [(''VOC Emissions'', igOrg),
      (''NOx emissions'', igNO),
      (''NH3 emissions'', igNH),
      (''SOx emissions'', igS),
      (''PM2.5 emissions'', iPM2_5)]"

text \<open>The names of the pollutants within the model.\<close>

definition polNames :: "string list" where
  "polNames = [''gOrg'', ''pOrg'', ''PM2_5'', ''gNH'', ''pNH'', ''gS'', ''pS'', ''gNO'', ''pNO'']"

record polConv =
  index :: "nat list"
  conversion :: "float64 list"

text \<open>
  Labels and conversions for pollutants: the entries of the map \<open>polLabels\<close> as they are
  written, and the map itself.
\<close>

definition polLabels_entries :: "(string \<times> polConv) list" where
  "polLabels_entries =
     [(''TotalPM2_5'', \<lparr>index = [iPM2_5, ipOrg, ipNH, ipS, ipNO],
         conversion = [Fin 1, Fin 1, Fin 1, Fin NtoNH4, Fin StoSO4, Fin NtoNO3]\<rparr>),
      (''VOC'', \<lparr>index = [igOrg], conversion = [Fin 1]\<rparr>),
      (''SOA'', \<lparr>index = [ipOrg], conversion = [Fin 1]\<rparr>),
      (''PrimaryPM2_5'', \<lparr>index = [iPM2_5], conversion = [Fin 1]\<rparr>),
      (''NH3'', \<lparr>index = [igNH], conversion = [Fin (1 / NH3ToN)]\<rparr>),
      (''pNH4'', \<lparr>index = [ipNH], conversion = [Fin NtoNH4]\<rparr>),
      (''SOx'', \<lparr>index = [igS], conversion = [Fin (1 / SOxToS)]\<rparr>),
      (''pSO4'', \<lparr>index = [ipS], conversion = [Fin StoSO4]\<rparr>),
      (''NOx'', \<lparr>index = [igNO], conversion = [Fin (1 / NOxToN)]\<rparr>),
      (''pNO3'', \<lparr>index = [ipNO], conversion = [Fin NtoNO3]\<rparr>)]"

definition polLabels :: "string \<Rightarrow> polConv option" where
  "polLabels = map_of polLabels_entries"

section \<open>What the package takes from elsewhere\<close>

text \<open>
  The map \<open>popNames\<close> (only its keys are used) is declared in a file that is not among
  the sources, and \<open>RRpm25Linear\<close> and \<open>Deaths\<close> belong to the package aqhealth. The
  functions that use them take them as an argument.
\<close>

record collaborators =
  popNames :: "string list"
  RRpm25Linear :: "float64 \<Rightarrow> float64"
  Deaths :: "float64 \<Rightarrow> float64 \<Rightarrow> float64 \<Rightarrow> float64"

section \<open>The output accessor\<close>

text \<open>Indexing a slice panics out of range.\<close>

definition elemAt :: "'a list \<Rightarrow> nat \<Rightarrow> panic + 'a" where
  "elemAt xs i = (if i < length xs then Inr (xs ! i) else Inl IndexOutOfRange)"

text \<open>\<open>strings.Replace(s, old, new, 1)\<close>: the first occurrence of \<open>old\<close> is replaced.\<close>

fun Replace1 :: "string \<Rightarrow> string \<Rightarrow> string \<Rightarrow> string" where
  "Replace1 [] old new = []"
| "Replace1 (c # cs) old new =
     (if take (length old) (c # cs) = old then new @ drop (length old) (c # cs)
      else c # Replace1 cs old new)"

text \<open>Reading a key that a Go map does not hold gives the zero value.\<close>

definition lookupOrZero :: "(string \<Rightarrow> float64 option) \<Rightarrow> string \<Rightarrow> float64" where
  "lookupOrZero m k = (case m k of None \<Rightarrow> Fin 0 | Some v \<Rightarrow> v)"

text \<open>
  What reflection sees of the struct \<open>Cell\<close>: for every field its name, whether it is a
  float64 (then with its accessor) or of another kind, and its \<open>units\<close> tag (empty when
  the field has none). The last five are the fields promoted from the embedded
  \<open>sync.RWMutex\<close>. The non-ASCII characters of the tags are written as their UTF-8 bytes.
\<close>

datatype fieldKind = Float64 "Cell \<Rightarrow> float64" | OtherKind

definition CellFields :: "(string \<times> fieldKind \<times> string) list" where
  "CellFields =
     [(''Polygonal'', OtherKind, []),
      (''WebMapGeom'', OtherKind, []),
      (''UAvg'', Float64 UAvg, ''m/s''),
      (''VAvg'', Float64 VAvg, ''m/s''),
      (''WAvg'', Float64 WAvg, ''m/s''),
      (''UDeviation'', Float64 UDeviation, ''m/s''),
      (''VDeviation'', Float64 VDeviation, ''m/s''),
      (''AOrgPartitioning'', Float64 AOrgPartitioning, ''fraction particles''),
      (''BOrgPartitioning'', Float64 BOrgPartitioning, []),
      (''SPartitioning'', Float64 SPartitioning, ''fraction particles''),
      (''NOPartitioning'', Float64 NOPartitioning, ''fraction particles''),
      (''NHPartitioning'', Float64 NHPartitioning, ''fraction particles''),
      (''SO2oxidation'', Float64 SO2oxidation, ''1/s''),
      (''ParticleWetDep'', Float64 ParticleWetDep, ''1/s''),
      (''SO2WetDep'', Float64 SO2WetDep, ''1/s''),
      (''OtherGasWetDep'', Float64 OtherGasWetDep, ''1/s''),
      (''ParticleDryDep'', Float64 ParticleDryDep, ''m/s''),
      (''NH3DryDep'', Float64 NH3DryDep, ''m/s''),
      (''SO2DryDep'', Float64 SO2DryDep, ''m/s''),
      (''VOCDryDep'', Float64 VOCDryDep, ''m/s''),
      (''NOxDryDep'', Float64 NOxDryDep, ''m/s''),
      (''Kzz'', Float64 Kzz, ''m'' @ [CHR 0xC2, CHR 0xB2] @ ''/s''),
      (''KzzAbove'', OtherKind, []),
      (''KzzBelow'', OtherKind, []),
      (''Kxxyy'', Float64 Kxxyy, ''m'' @ [CHR 0xC2, CHR 0xB2] @ ''/s''),
      (''KyySouth'', OtherKind, []),
      (''KyyNorth'', OtherKind, []),
      (''KxxWest'', OtherKind, []),
      (''KxxEast'', OtherKind, []),
      (''M2u'', Float64 M2u, ''1/s''),
      (''M2d'', Float64 M2d, ''1/s''),
      (''PopData'', OtherKind, []),
      (''MortalityRate'', Float64 MortalityRate, ''Deaths per 100,000 people per year''),
      (''Dx'', Float64 Dx, []),
      (''Dy'', Float64 Dy, []),
      (''Dz'', Float64 Dz, []),
      (''Volume'', Float64 Volume, ''m'' @ [CHR 0xC2, CHR 0xB3]),
      (''Row'', OtherKind, []),
      (''Ci'', OtherKind, []),
      (''Cf'', OtherKind, []),
      (''emisFlux'', OtherKind, []),
      (''West'', OtherKind, []),
      (''East'', OtherKind, []),
      (''South'', OtherKind, []),
      (''North'', OtherKind, []),
      (''Below'', OtherKind, []),
      (''Above'', OtherKind, []),
      (''GroundLevel'', OtherKind, []),
      (''Boundary'', OtherKind, []),
      (''WestFrac'', OtherKind, []),
      (''EastFrac'', OtherKind, []),
      (''NorthFrac'', OtherKind, []),
      (''SouthFrac'', OtherKind, []),
      (''AboveFrac'', OtherKind, []),
      (''BelowFrac'', OtherKind, []),
      (''GroundLevelFrac'', OtherKind, []),
      (''DxPlusHalf'', OtherKind, []),
      (''DxMinusHalf'', OtherKind, []),
      (''DyPlusHalf'', OtherKind, []),
      (''DyMinusHalf'', OtherKind, []),
      (''DzPlusHalf'', OtherKind, []),
      (''DzMinusHalf'', OtherKind, []),
      (''Layer'', OtherKind, []),
      (''LayerHeight'', Float64 LayerHeight, []),
      (''Temperature'', Float64 Temperature, ''K''),
      (''WindSpeed'', Float64 WindSpeed, ''m/s''),
      (''WindSpeedInverse'', Float64 WindSpeedInverse, ''(m/s)^(-1)''),
      (''WindSpeedMinusThird'', Float64 WindSpeedMinusThird, ''(m/s)^(-1/3)''),
      (''WindSpeedMinusOnePointFour'', Float64 WindSpeedMinusOnePointFour,
         ''(m/s)^(-1.4)''),
      (''S1'', Float64 S1, ''?''),
      (''SClass'', Float64 SClass, ''0=Unstable; 1=Stable''),
      (''TotalPM25'', Float64 TotalPM25, []),
      (''RWMutex'', OtherKind, []),
      (''index'', OtherKind, []),
      (''aboveDensityThreshold'', OtherKind, []),
      (''w'', OtherKind, []),
      (''writerSem'', OtherKind, []),
      (''readerSem'', OtherKind, []),
      (''readerCount'', OtherKind, []),
      (''readerWait'', OtherKind, [])]"

definition FieldByName :: "string \<Rightarrow> (fieldKind \<times> string) option" where
  "FieldByName = map_of CellFields"

text \<open>
  The loop of the concentration branch of \<open>getValue\<close>: \<open>i\<close> counts the entries of
  \<open>polConv.index\<close> that have been read, \<open>out\<close> is the sum so far.
\<close>

fun sumConc :: "Cell \<Rightarrow> nat list \<Rightarrow> float64 list \<Rightarrow> nat \<Rightarrow> float64 \<Rightarrow> panic + float64" where
  "sumConc c [] conv i out = Inr out"
| "sumConc c (ii # rest) conv i out =
     bind_panic (elemAt (Cf c) ii) (\<lambda>cf.
     bind_panic (elemAt conv i) (\<lambda>k.
       sumConc c rest conv (Suc i) (out + cf * k)))"

text \<open>
  \<open>getValue\<close>. In the last branch \<open>FieldByName\<close> gives the zero \<open>Value\<close> when the struct
  has no field of that name, and \<open>Float\<close> panics on it as it does on a field that is not
  a float.
\<close>

function getValue :: "collaborators \<Rightarrow> Cell \<Rightarrow> string \<Rightarrow> panic + float64" where
  "getValue env c varName =
     (case emisLabels varName of
        Some idx \<Rightarrow> elemAt (emisFlux c) idx
      | None \<Rightarrow>
     (case polLabels varName of
        Some pc \<Rightarrow> sumConc c (index pc) (conversion pc) 0 (Fin 0)
      | None \<Rightarrow>
      if varName \<in> set (popNames env) then
        Inr (lookupOrZero (PopData c) varName / Dx c / Dy c)
      else if Replace1 varName '' deaths'' [] \<in> set (popNames env) then
        bind_panic (getValue env c ''TotalPM2_5'') (\<lambda>total.
          Inr (Deaths env (RRpm25Linear env total)
                 (lookupOrZero (PopData c) (Replace1 varName '' deaths'' []))
                 (MortalityRate c)))
      else
        (case FieldByName varName of
           None \<Rightarrow> Inl ReflectFloatOnZeroValue
         | Some (OtherKind, units) \<Rightarrow> Inl ReflectFloatOnNonFloat
         | Some (Float64 field, units) \<Rightarrow> Inr (field c))))"
  by pat_completeness auto
termination
  by (relation "measure (\<lambda>(env, c, varName). if polLabels varName = None then 1 else 0)")
     (auto simp add: polLabels_def polLabels_entries_def)

declare getValue.simps [simp del]


text \<open>
  Taking and releasing a cell's read lock. The model is of an extraction that runs while
  no writer holds the lock, so taking it never waits.
\<close>

definition RLock :: "Cell \<Rightarrow> Cell" where
  "RLock c = c\<lparr>RWMutex := (RWMutex c)\<lparr>readerCount := Suc (readerCount (RWMutex c))\<rparr>\<rparr>"

definition RUnlock :: "Cell \<Rightarrow> panic + Cell" where
  "RUnlock c =
     (if readerCount (RWMutex c) = 0 then Inl RUnlockOfUnlockedRWMutex
      else Inr (c\<lparr>RWMutex := (RWMutex c)\<lparr>readerCount := readerCount (RWMutex c) - 1\<rparr>\<rparr>))"

text \<open>
  The loop of \<open>toArray\<close> over the cells that remain, with the slice \<open>o\<close> built so far. It
  returns the slice and the cells as the loop leaves them.
\<close>

fun toArray_from ::
  "collaborators \<Rightarrow> string \<Rightarrow> int \<Rightarrow> Cell list \<Rightarrow> float64 list \<Rightarrow>
     panic + (float64 list \<times> Cell list)" where
  "toArray_from env pol layer [] out = Inr (out, [])"
| "toArray_from env pol layer (c # cs) out =
     (let c1 = RLock c in
      if Layer c1 > layer then Inr (out, c1 # cs)
      else
        bind_panic
          (if Layer c1 = layer
           then bind_panic (getValue env c1 pol) (\<lambda>v. Inr (out @ [v]))
           else Inr out) (\<lambda>out'.
        bind_panic (RUnlock c1) (\<lambda>c2.
        bind_panic (toArray_from env pol layer cs out') (\<lambda>(res, cs').
          Inr (res, c2 # cs')))))"

definition toArray ::
  "collaborators \<Rightarrow> InMAPdata \<Rightarrow> string \<Rightarrow> int \<Rightarrow> panic + (float64 list \<times> InMAPdata)" where
  "toArray env d pol layer =
     bind_panic (toArray_from env pol layer (Cells d) []) (\<lambda>(out, cs).
       Inr (out, d\<lparr>Cells := cs\<rparr>))"

text \<open>\<open>GetGeometry\<close>, in the same way.\<close>

fun GetGeometry_from ::
  "int \<Rightarrow> Cell list \<Rightarrow> Polygonal list \<Rightarrow> panic + (Polygonal list \<times> Cell list)" where
  "GetGeometry_from layer [] out = Inr (out, [])"
| "GetGeometry_from layer (c # cs) out =
     (let c1 = RLock c in
      if Layer c1 > layer then Inr (out, c1 # cs)
      else
        bind_panic (RUnlock c1) (\<lambda>c2.
        bind_panic
          (GetGeometry_from layer cs (if Layer c1 = layer then out @ [WebMapGeom c1] else out))
          (\<lambda>(res, cs'). Inr (res, c2 # cs'))))"

definition GetGeometry :: "InMAPdata \<Rightarrow> int \<Rightarrow> panic + (Polygonal list \<times> InMAPdata)" where
  "GetGeometry d layer =
     bind_panic (GetGeometry_from layer (Cells d) []) (\<lambda>(out, cs).
       Inr (out, d\<lparr>Cells := cs\<rparr>))"

section \<open>Run: initialisation, emissions and the output variables\<close>






section \<open>The science scheduler\<close>

text \<open>
  The main loop of \<open>Run\<close> and the workers \<open>doScience\<close> run concurrently. They are modelled
  as a transition system whose configuration holds the channel of every worker
  (capacity 1), the state of every worker, the position of the main thread, the
  counter of the wait group and the loop variables of \<open>Run\<close>. One action is one atomic
  step of one thread, and a run is a list of actions, in the order in which the
  scheduler interleaves them. The bodies of the science functions call methods that are
  not among the sources; the model does not apply them to the cells, it records each
  call \<open>f(c, d)\<close> in a trace.
\<close>

definition topLayerToCalc :: int where
  "topLayerToCalc = 28"

definition checkPeriod :: float64 where
  "checkPeriod = Fin 3600"

text \<open>The list of science functions that \<open>Run\<close> sends at each timestep, by name.\<close>

definition scienceFuncs :: "string list" where
  "scienceFuncs =
     [''addEmissionsFlux'',
      ''UpwindAdvection, Mixing, Chemistry, DryDeposition, WetDeposition'']"

text \<open>
  What travels on a channel: a science function, given by its position in
  \<open>scienceFuncs\<close>, together with the value of \<open>iteration\<close> when it was sent.
\<close>

type_synonym msg = "nat \<times> nat"

text \<open>One call \<open>f(c, d)\<close>: the worker that made it, the message it serves and the cell.\<close>

record event =
  procNum :: nat
  iter :: nat
  func :: nat
  cell :: nat

text \<open>
  A worker waits on its channel, or is in the loop over its cells with the function it
  received and the loop variable \<open>ii\<close>.
\<close>

datatype wstate = Receiving | Looping msg nat

text \<open>
  The main thread is at the top of the loop (before \<open>wg.Add\<close>), about to send function
  \<open>k\<close> to worker \<open>pp\<close>, at the bookkeeping after the sends, in \<open>wg.Wait\<close> before leaving
  at the iteration cap, in \<open>wg.Wait\<close> before a convergence check, or past the loop.
\<close>

datatype mstate = Top | Sending nat nat | Bookkeeping | WaitCap | WaitCheck | Finished

record sched =
  funcChan :: "msg list list"
  workers :: "wstate list"
  mainAt :: mstate
  wg :: int
  iteration :: nat
  timeSinceLastCheck :: float64
  trace :: "event list"

text \<open>
  The actions. \<open>MainCheck quit\<close> is the convergence check with its verdict, which depends
  on the concentrations that the science functions leave. A worker \<open>p\<close> receives
  (\<open>Recv\<close>), runs the body of its loop for one cell (\<open>Apply\<close>: lock, call if the layer is
  low enough, unlock) or leaves the loop and calls \<open>wg.Done\<close> (\<open>Done\<close>).
\<close>

datatype action =
    MainAdd | MainSend | MainBook | MainWaitCap | MainCheck bool
  | Recv nat | Apply nat | Done nat

fun exec :: "nat \<Rightarrow> InMAPdata \<Rightarrow> action \<Rightarrow> sched \<Rightarrow> sched option" where
  "exec nprocs d MainAdd s =
     (if mainAt s = Top
      then Some (s\<lparr>wg := wg s + int (length scienceFuncs * nprocs), mainAt := Sending 0 0\<rparr>)
      else None)"
| "exec nprocs d MainSend s =
     (case mainAt s of
        Sending k pp \<Rightarrow>
          if k < length scienceFuncs \<and> pp < nprocs \<and> length (funcChan s ! pp) < 1
          then Some (s\<lparr>funcChan := (funcChan s)[pp := funcChan s ! pp @ [(iteration s, k)]],
                       mainAt := (if Suc pp < nprocs then Sending k (Suc pp)
                                  else if Suc k < length scienceFuncs then Sending (Suc k) 0
                                  else Bookkeeping)\<rparr>)
          else None
      | _ \<Rightarrow> None)"
| "exec nprocs d MainBook s =
     (if mainAt s = Bookkeeping
      then Some (s\<lparr>iteration := Suc (iteration s),
                   timeSinceLastCheck := timeSinceLastCheck s + Dt d,
                   mainAt := (if NumIterations d > 0
                              then (if int (Suc (iteration s)) \<ge> NumIterations d
                                    then WaitCap else Top)
                              else if timeSinceLastCheck s + Dt d \<ge> checkPeriod
                              then WaitCheck else Top)\<rparr>)
      else None)"
| "exec nprocs d MainWaitCap s =
     (if mainAt s = WaitCap \<and> wg s = 0 then Some (s\<lparr>mainAt := Finished\<rparr>) else None)"
| "exec nprocs d (MainCheck quit) s =
     (if mainAt s = WaitCheck \<and> wg s = 0
      then Some (s\<lparr>timeSinceLastCheck := Fin 0, mainAt := (if quit then Finished else Top)\<rparr>)
      else None)"
| "exec nprocs d (Recv p) s =
     (if p < nprocs \<and> workers s ! p = Receiving
      then (case funcChan s ! p of
              [] \<Rightarrow> None
            | m # rest \<Rightarrow>
                Some (s\<lparr>funcChan := (funcChan s)[p := rest],
                        workers := (workers s)[p := Looping m p]\<rparr>))
      else None)"
| "exec nprocs d (Apply p) s =
     (if p < nprocs
      then (case workers s ! p of
              Looping m ii \<Rightarrow>
                if ii < length (Cells d)
                then Some (s\<lparr>workers := (workers s)[p := Looping m (ii + nprocs)],
                             trace := trace s @
                               (if Layer (Cells d ! ii) \<le> topLayerToCalc
                                then [\<lparr>procNum = p, iter = fst m, func = snd m, cell = ii\<rparr>]
                                else [])\<rparr>)
                else None
            | Receiving \<Rightarrow> None)
      else None)"
| "exec nprocs d (Done p) s =
     (if p < nprocs
      then (case workers s ! p of
              Looping m ii \<Rightarrow>
                if ii < length (Cells d) then None
                else Some (s\<lparr>workers := (workers s)[p := Receiving], wg := wg s - 1\<rparr>)
            | Receiving \<Rightarrow> None)
      else None)"

text \<open>A run: the actions one after the other, as long as each is enabled.\<close>

fun runSched :: "nat \<Rightarrow> InMAPdata \<Rightarrow> action list \<Rightarrow> sched \<Rightarrow> sched option" where
  "runSched nprocs d [] s = Some s"
| "runSched nprocs d (a # acts) s =
     (case exec nprocs d a s of None \<Rightarrow> None | Some s' \<Rightarrow> runSched nprocs d acts s')"

text \<open>The configuration when the workers have been started and the loop is entered.\<close>

definition initSched :: "nat \<Rightarrow> sched" where
  "initSched nprocs = \<lparr>funcChan = replicate nprocs [], workers = replicate nprocs Receiving,
     mainAt = Top, wg = 0, iteration = 0, timeSinceLastCheck = Fin 0, trace = []\<rparr>"

text \<open>
  The cells to which a science function is applied (those whose layer is not above
  \<open>topLayerToCalc\<close>), and those among them that worker \<open>p\<close> visits.
\<close>

definition activeCells :: "InMAPdata \<Rightarrow> nat list" where
  "activeCells d = filter (\<lambda>c. Layer (Cells d ! c) \<le> topLayerToCalc) [0..<length (Cells d)]"

definition assignedCells :: "nat \<Rightarrow> InMAPdata \<Rightarrow> nat \<Rightarrow> nat list" where
  "assignedCells nprocs d p = filter (\<lambda>c. c mod nprocs = p) (activeCells d)"

text \<open>
  The ordering of the spec, on a trace: whenever a call of function \<open>k + 1\<close> is made,
  function \<open>k\<close> of the same iteration has already been applied to every cell of the
  grid. \<open>before\<close> holds the calls made so far.
\<close>

fun phaseOrdered :: "nat \<Rightarrow> InMAPdata \<Rightarrow> event list \<Rightarrow> event list \<Rightarrow> bool" where
  "phaseOrdered nprocs d before [] = True"
| "phaseOrdered nprocs d before (e # es) =
     ((func e = 0 \<or>
       list_all (\<lambda>c. \<lparr>procNum = c mod nprocs, iter = iter e, func = func e - 1, cell = c\<rparr>
                      \<in> set before) (activeCells d)) \<and>
      phaseOrdered nprocs d (before @ [e]) es)"

text \<open>
  The ordering that each worker keeps: whenever a worker makes a call of function
  \<open>k + 1\<close>, it has already applied function \<open>k\<close> of the same iteration to every cell that
  it visits.
\<close>

fun workerPhaseOrdered :: "nat \<Rightarrow> InMAPdata \<Rightarrow> event list \<Rightarrow> event list \<Rightarrow> bool" where
  "workerPhaseOrdered nprocs d before [] = True"
| "workerPhaseOrdered nprocs d before (e # es) =
     ((func e = 0 \<or>
       list_all (\<lambda>c. \<lparr>procNum = procNum e, iter = iter e, func = func e - 1, cell = c\<rparr>
                      \<in> set before) (assignedCells nprocs d (procNum e))) \<and>
      workerPhaseOrdered nprocs d (before @ [e]) es)"

section \<open>Predicates of the statements\<close>

text \<open>A float64 that is a finite, strictly positive number.\<close>

fun posFin :: "float64 \<Rightarrow> bool" where
  "posFin (Fin x) = (0 < x)"
| "posFin PInf = False"
| "posFin NInf = False"
| "posFin NaN = False"

text \<open>A cell whose extents are finite and strictly positive.\<close>

definition posExtents :: "Cell \<Rightarrow> bool" where
  "posExtents c = (posFin (Dx c) \<and> posFin (Dy c) \<and> posFin (Dz c))"

text \<open>
  A cell whose extents, winds, deviations and diffusivities are all finite and strictly
  positive.
\<close>

definition posCell :: "Cell \<Rightarrow> bool" where
  "posCell c = (posFin (Dx c) \<and> posFin (Dy c) \<and> posFin (Dz c) \<and>
     posFin (UAvg c) \<and> posFin (VAvg c) \<and> posFin (WAvg c) \<and>
     posFin (UDeviation c) \<and> posFin (VDeviation c) \<and>
     posFin (Kzz c) \<and> posFin (Kxxyy c))"

text \<open>The same cell with each of its three extents doubled.\<close>

definition doubleExtents :: "Cell \<Rightarrow> Cell" where
  "doubleExtents c = c\<lparr>Dx := Fin 2 * Dx c, Dy := Fin 2 * Dy c, Dz := Fin 2 * Dz c\<rparr>"

text \<open>All neighbour references of a cell, and all its overlap fractions.\<close>

definition neighbors :: "Cell \<Rightarrow> nat list" where
  "neighbors c = West c @ East c @ North c @ South c @ Above c @ Below c @ GroundLevel c"

definition fractions :: "Cell \<Rightarrow> float64 list" where
  "fractions c = WestFrac c @ EastFrac c @ NorthFrac c @ SouthFrac c @ AboveFrac c @
     BelowFrac c @ GroundLevelFrac c"

text \<open>The reference is not nil and the cell it points to has positive extents.\<close>

fun posExtentsAt :: "(nat \<Rightarrow> Cell option) \<Rightarrow> nat \<Rightarrow> bool" where
  "posExtentsAt h a = (case h a of None \<Rightarrow> False | Some n \<Rightarrow> posExtents n)"

text \<open>
  A value with a sign of zero that is a finite strictly positive number, one that is
  finite (a number or either zero), and one that is a positive number or \<open>+0\<close>.
\<close>

fun posVal :: "signed64 \<Rightarrow> bool" where
  "posVal (Val a) = posFin a"
| "posVal NegZero = False"

fun finiteVal :: "signed64 \<Rightarrow> bool" where
  "finiteVal (Val (Fin x)) = True"
| "finiteVal (Val PInf) = False"
| "finiteVal (Val NInf) = False"
| "finiteVal (Val NaN) = False"
| "finiteVal NegZero = True"

fun posOrPlusZero :: "signed64 \<Rightarrow> bool" where
  "posOrPlusZero (Val (Fin x)) = (0 \<le> x)"
| "posOrPlusZero (Val PInf) = False"
| "posOrPlusZero (Val NInf) = False"
| "posOrPlusZero (Val NaN) = False"
| "posOrPlusZero NegZero = False"

text \<open>
  A cell with finite positive extents, finite winds and deviations of any sign, and
  diffusivities that are positive numbers or \<open>+0\<close>.
\<close>

definition physicalCell :: "Cell_signed \<Rightarrow> bool" where
  "physicalCell c = (posVal (Dx c) \<and> posVal (Dy c) \<and> posVal (Dz c) \<and>
     finiteVal (UAvg c) \<and> finiteVal (VAvg c) \<and> finiteVal (WAvg c) \<and>
     finiteVal (UDeviation c) \<and> finiteVal (VDeviation c) \<and>
     posOrPlusZero (Kzz c) \<and> posOrPlusZero (Kxxyy c))"

text \<open>The four bounds of a cell, in the order in which \<open>setTstepCFL\<close> passes them on.\<close>

definition bounds :: "Cell_signed \<Rightarrow> signed64 list" where
  "bounds c = [dt1_signed c, dt2_signed c, dt3_signed c, dt4_signed c]"

text \<open>A cell without wind and without turbulent deviation: each is one of the zeros.\<close>

definition stillAir :: "Cell_signed \<Rightarrow> bool" where
  "stillAir c = (plain (UAvg c) = Fin 0 \<and> plain (VAvg c) = Fin 0 \<and> plain (WAvg c) = Fin 0 \<and>
     plain (UDeviation c) = Fin 0 \<and> plain (VDeviation c) = Fin 0)"

text \<open>
  The advective bound as the spec words it, to be compared with \<open>dt1\<close>: Courant divided
  by \<open>sqrt 3\<close> divided by the maximum over the three axes of (mean wind + 2 * turbulent
  deviation) / extent. A cell has no vertical deviation, so the one the spec's formula
  needs is an argument.
\<close>

definition advectiveBound_spec :: "Cell \<Rightarrow> float64 \<Rightarrow> float64" where
  "advectiveBound_spec c WDeviation = Cmax / sqrt3 /
     max_f64 ((UAvg c + Fin 2 * UDeviation c) / Dx c)
       [(VAvg c + Fin 2 * VDeviation c) / Dy c,
        (WAvg c + Fin 2 * WDeviation) / Dz c]"






section \<open>Concrete inputs\<close>

text \<open>Concrete cells and domains on which the statements are exercised.\<close>

definition windyCell :: Cell where
  "windyCell = newCell\<lparr>UAvg := Fin 5, VAvg := Fin 3, WAvg := Fin 1,
     UDeviation := Fin 1, VDeviation := Fin 1, Kzz := Fin 10, Kxxyy := Fin 100,
     Dx := Fin 1000, Dy := Fin 1000, Dz := Fin 50\<rparr>"

definition domainOf :: "Cell list \<Rightarrow> InMAPdata" where
  "domainOf cs = \<lparr>Cells = cs, Dt = Fin 0, Nlayers = 1, NumIterations = 0,
     westBoundary = [], eastBoundary = [], northBoundary = [], southBoundary = [],
     topBoundary = []\<rparr>"

text \<open>A store with one fine cell at address 1 and one coarse cell at address 2.\<close>

definition twoCellStore :: "nat \<Rightarrow> Cell option" where
  "twoCellStore a =
     (if a = 1 then Some (windyCell\<lparr>Dx := Fin 500, Dy := Fin 500\<rparr>)
      else if a = 2 then Some (windyCell\<lparr>Dx := Fin 2000, Dy := Fin 2000\<rparr>)
      else None)"

text \<open>More concrete cells: wind blowing towards the west, and a pure updraft.\<close>

definition easterlyCell :: Cell where
  "easterlyCell = newCell\<lparr>UAvg := Fin (- 10), Dx := Fin 1000, Dy := Fin 1000, Dz := Fin 100\<rparr>"

definition updraftCell :: Cell where
  "updraftCell = newCell\<lparr>WAvg := Fin 1, Dx := Fin 1000, Dy := Fin 1000, Dz := Fin 100\<rparr>"

text \<open>
  Cells over \<open>signed64\<close>: the zero value of the struct, still air over a cell whose
  vertical diffusivity is \<open>+0\<close>, a windy cell, a cell with a negative vertical
  diffusivity, and a cell whose vertical diffusivity is \<open>-0\<close>.
\<close>

definition newCell_signed :: Cell_signed where
  "newCell_signed = \<lparr>
     Polygonal = [], WebMapGeom = [],
     UAvg = Val (Fin 0), VAvg = Val (Fin 0), WAvg = Val (Fin 0),
     UDeviation = Val (Fin 0), VDeviation = Val (Fin 0),
     AOrgPartitioning = Val (Fin 0), BOrgPartitioning = Val (Fin 0),
     SPartitioning = Val (Fin 0), NOPartitioning = Val (Fin 0),
     NHPartitioning = Val (Fin 0), SO2oxidation = Val (Fin 0),
     ParticleWetDep = Val (Fin 0), SO2WetDep = Val (Fin 0), OtherGasWetDep = Val (Fin 0),
     ParticleDryDep = Val (Fin 0), NH3DryDep = Val (Fin 0), SO2DryDep = Val (Fin 0),
     VOCDryDep = Val (Fin 0), NOxDryDep = Val (Fin 0),
     Kzz = Val (Fin 0), KzzAbove = [], KzzBelow = [], Kxxyy = Val (Fin 0),
     KyySouth = [], KyyNorth = [], KxxWest = [], KxxEast = [],
     M2u = Val (Fin 0), M2d = Val (Fin 0),
     PopData = (\<lambda>k. None), MortalityRate = Val (Fin 0),
     Dx = Val (Fin 0), Dy = Val (Fin 0), Dz = Val (Fin 0), Volume = Val (Fin 0), Row = 0,
     Ci = [], Cf = [], emisFlux = [],
     West = [], East = [], South = [], North = [], Below = [], Above = [],
     GroundLevel = [], Boundary = False,
     WestFrac = [], EastFrac = [], NorthFrac = [], SouthFrac = [],
     AboveFrac = [], BelowFrac = [], GroundLevelFrac = [],
     DxPlusHalf = [], DxMinusHalf = [], DyPlusHalf = [], DyMinusHalf = [],
     DzPlusHalf = [], DzMinusHalf = [],
     Layer = 0, LayerHeight = Val (Fin 0),
     Temperature = Val (Fin 0), WindSpeed = Val (Fin 0), WindSpeedInverse = Val (Fin 0),
     WindSpeedMinusThird = Val (Fin 0), WindSpeedMinusOnePointFour = Val (Fin 0),
     S1 = Val (Fin 0), SClass = Val (Fin 0),
     TotalPM25 = Val (Fin 0),
     RWMutex = \<lparr>writer = False, readerCount = 0\<rparr>,
     index = [], aboveDensityThreshold = False\<rparr>"

definition domainOf_signed :: "Cell_signed list \<Rightarrow> InMAPdata_signed" where
  "domainOf_signed cs = \<lparr>Cells = cs, Dt = Val (Fin 0), Nlayers = 1, NumIterations = 0,
     westBoundary = [], eastBoundary = [], northBoundary = [], southBoundary = [],
     topBoundary = []\<rparr>"

definition calmCell :: Cell_signed where
  "calmCell = newCell_signed\<lparr>Kxxyy := Val (Fin 100),
     Dx := Val (Fin 1000), Dy := Val (Fin 1000), Dz := Val (Fin 100)\<rparr>"

definition gustyCell :: Cell_signed where
  "gustyCell = newCell_signed\<lparr>UAvg := Val (Fin (- 5)), VAvg := NegZero, WAvg := Val (Fin 1),
     UDeviation := Val (Fin 1), VDeviation := Val (Fin (- 1)),
     Kzz := Val (Fin 10), Kxxyy := Val (Fin 100),
     Dx := Val (Fin 1000), Dy := Val (Fin 1000), Dz := Val (Fin 50)\<rparr>"

definition antiDiffusiveCell :: Cell_signed where
  "antiDiffusiveCell = newCell_signed\<lparr>Kzz := Val (Fin (- 1)), Kxxyy := Val (Fin 100),
     Dx := Val (Fin 1000), Dy := Val (Fin 1000), Dz := Val (Fin 100)\<rparr>"

definition negativeZeroCell :: Cell_signed where
  "negativeZeroCell = newCell_signed\<lparr>Kzz := NegZero, Kxxyy := Val (Fin 100),
     Dx := Val (Fin 1000), Dy := Val (Fin 1000), Dz := Val (Fin 100)\<rparr>"

text \<open>A ground-level cell and a cell of the layer above, with their concentration arrays.\<close>

definition groundCell :: Cell where
  "groundCell = windyCell\<lparr>Ci := replicate 9 (Fin 0), Cf := replicate 9 (Fin 0),
     emisFlux := replicate 9 (Fin 0), Layer := 0\<rparr>"

definition upperCell :: Cell where
  "upperCell = windyCell\<lparr>Ci := replicate 9 (Fin 0), Cf := replicate 9 (Fin 0),
     emisFlux := replicate 9 (Fin 0), Layer := 1\<rparr>"

text \<open>Collaborators for the examples.\<close>

definition exampleEnv :: collaborators where
  "exampleEnv = \<lparr>popNames = [''TotalPop''], RRpm25Linear = (\<lambda>x. Fin 1 + x * Fin 0.01),
     Deaths = (\<lambda>rr pop rate. (rr - Fin 1) * pop * rate)\<rparr>"

text \<open>
  A run with two workers and two ground-level cells in which worker 0 has gone through
  both functions before worker 1 has received the first.
\<close>

definition eagerWorker :: "action list" where
  "eagerWorker = [MainAdd, MainSend, MainSend, Recv 0, Apply 0, Done 0,
     MainSend, Recv 0, Apply 0]"

section \<open>The invariant of the scheduler\<close>

text \<open>
  Messages are ordered by iteration and then by position in \<open>scienceFuncs\<close>; \<open>sentTo\<close>
  tells which messages the main thread has already sent to worker \<open>p\<close>, given where it
  is; \<open>nextMain\<close> is where it is after sending function \<open>k\<close> to worker \<open>pp\<close>; \<open>called\<close> is
  the event of a call. The invariant of a worker says that its channel holds at most one
  message, that whatever it holds or works on has been sent, that the message it works on
  precedes those in its channel, that its loop variable stays in its residue class with
  the cells below it done, and that every message sent to it is in its channel, in
  work, or has been applied to every cell that the worker visits.
\<close>

definition keyLess :: "msg \<Rightarrow> msg \<Rightarrow> bool" where
  "keyLess m m' = (fst m < fst m' \<or> (fst m = fst m' \<and> snd m < snd m'))"

definition sentTo :: "mstate \<Rightarrow> nat \<Rightarrow> nat \<Rightarrow> msg \<Rightarrow> bool" where
  "sentTo ma it p m =
     (snd m < length scienceFuncs \<and>
      (fst m < it \<or>
       (fst m = it \<and>
        (case ma of
           Sending k pp \<Rightarrow> snd m < k \<or> (snd m = k \<and> p < pp)
         | Bookkeeping \<Rightarrow> True
         | _ \<Rightarrow> False))))"

definition called :: "nat \<Rightarrow> msg \<Rightarrow> nat \<Rightarrow> event" where
  "called p m c = \<lparr>procNum = p, iter = fst m, func = snd m, cell = c\<rparr>"

definition winv ::
  "nat \<Rightarrow> InMAPdata \<Rightarrow> nat \<Rightarrow> msg list \<Rightarrow> wstate \<Rightarrow> (msg \<Rightarrow> bool) \<Rightarrow> event set \<Rightarrow> bool" where
  "winv nprocs d p ch w S T =
     (length ch \<le> 1 \<and> (\<forall>m\<in>set ch. S m) \<and>
      (\<forall>m ii. w = Looping m ii \<longrightarrow>
         S m \<and> (\<forall>m'\<in>set ch. keyLess m m') \<and> ii mod nprocs = p \<and>
         (\<forall>c\<in>set (assignedCells nprocs d p). c < ii \<longrightarrow> called p m c \<in> T)) \<and>
      (\<forall>m. S m \<longrightarrow> m \<in> set ch \<or> (\<exists>ii. w = Looping m ii) \<or>
         (\<forall>c\<in>set (assignedCells nprocs d p). called p m c \<in> T)))"

definition schedInv :: "nat \<Rightarrow> InMAPdata \<Rightarrow> sched \<Rightarrow> bool" where
  "schedInv nprocs d s =
     (length (funcChan s) = nprocs \<and> length (workers s) = nprocs \<and>
      (\<forall>p<nprocs. winv nprocs d p (funcChan s ! p) (workers s ! p)
                    (sentTo (mainAt s) (iteration s) p) (set (trace s))) \<and>
      workerPhaseOrdered nprocs d [] (trace s))"

definition nextMain :: "nat \<Rightarrow> nat \<Rightarrow> nat \<Rightarrow> mstate" where
  "nextMain nprocs k pp =
     (if Suc pp < nprocs then Sending k (Suc pp)
      else if Suc k < length scienceFuncs then Sending (Suc k) 0
      else Bookkeeping)"

section \<open>Properties of the convergence check\<close>

text \<open>
  Claim C1, as stated: a species is declared converged only if the relative change
  \<open>(newSum - oldSum) / oldSum\<close> is finite and at most the tolerance in absolute value,
  and a prior sum of zero gives a non-convergent verdict for every new sum.
  This fails when both sums are zero: the ratio \<open>0 / 0\<close> is NaN, which is neither
  greater than the tolerance nor an infinity, so the verdict is "converged".
\<close>

theorem checkConvergence_zero_zero_counterexample:
  "checkConvergence (Fin 0) (Fin 0) ''gOrg'' \<and> (Fin 0 - Fin 0) / Fin 0 = NaN"
  by (simp add: checkConvergence_def minus_float64_def tolerance_def IsInf_def)

text \<open>
  Claim C1, amended: a species is declared converged exactly when the relative change is
  NaN or is finite with absolute value at most 0.005; an infinite ratio is never
  convergent, so a prior sum of zero gives a non-convergent verdict for every new sum
  other than zero and NaN.
\<close>

theorem checkConvergence_verdict:
  "(checkConvergence newSum oldSum Var \<longleftrightarrow>
      ((newSum - oldSum) / oldSum = NaN \<or>
       (\<exists>r. (newSum - oldSum) / oldSum = Fin r \<and> \<bar>r\<bar> \<le> 0.005))) \<and>
   (newSum \<noteq> Fin 0 \<longrightarrow> newSum \<noteq> NaN \<longrightarrow> \<not> checkConvergence newSum (Fin 0) Var)"
proof
  show "checkConvergence newSum oldSum Var \<longleftrightarrow>
      ((newSum - oldSum) / oldSum = NaN \<or>
       (\<exists>r. (newSum - oldSum) / oldSum = Fin r \<and> \<bar>r\<bar> \<le> 0.005))"
    by (cases "(newSum - oldSum) / oldSum")
       (auto simp add: checkConvergence_def tolerance_def IsInf_def Let_def)
  show "newSum \<noteq> Fin 0 \<longrightarrow> newSum \<noteq> NaN \<longrightarrow> \<not> checkConvergence newSum (Fin 0) Var"
    by (cases newSum)
       (auto simp add: checkConvergence_def tolerance_def IsInf_def Let_def minus_float64_def)
qed

theorem checkConvergence_verdict_witness:
  "Fin 3 \<noteq> Fin 0 \<and> Fin 3 \<noteq> NaN \<and> \<not> checkConvergence (Fin 3) (Fin 0) ''gOrg''"
  using checkConvergence_verdict [of "Fin 3" "Fin 0" "''gOrg''"]
  by (simp add: minus_float64_def)

section \<open>Properties of the interface diffusivity\<close>




section \<open>Properties of the timestep controller\<close>

lemma posFinE: "posFin a \<Longrightarrow> \<exists>x. a = Fin x \<and> 0 < x"
  by (cases a) auto

lemma amin4: "amin (Fin a) [Fin b, Fin c, Fin d] = Fin (min (min (min a b) c) d)"
  by (simp add: amin_def min_def)
lemma amin5: "amin (Fin a) [Fin b, Fin c, Fin d, Fin e] = Fin (min (min (min (min a b) c) d) e)"
  by (simp add: amin_def min_def)
lemma max3: "max_f64 (Fin a) [Fin b, Fin c] = Fin (max (max a b) c)"
  by (simp add: max_f64_def max_def)

lemma dt1_value:
  assumes "UAvg c = Fin u" "UDeviation c = Fin ud" "VAvg c = Fin v" "VDeviation c = Fin vd"
      "WAvg c = Fin w" "Dx c = Fin dx" "Dy c = Fin dy" "Dz c = Fin dz"
      "0 < dx" "0 < dy" "0 < dz"
  shows "dt1 c =
     (if max (max ((\<bar>u\<bar> + ud * 2) / dx) ((\<bar>v\<bar> + vd * 2) / dy)) (\<bar>w\<bar> / dz) = 0 then PInf
      else Fin (1 / sqrt 3 / max (max ((\<bar>u\<bar> + ud * 2) / dx) ((\<bar>v\<bar> + vd * 2) / dy)) (\<bar>w\<bar> / dz)))"
  using assms by (simp add: dt1_def Cmax_def sqrt3_def max3)

lemma max_half: "max (a / 2) (b / 2) = max a b / (2::real)"
  by (simp add: max_def)

lemma dt1_pos:
  assumes "posCell c"
  shows "\<exists>a a'. dt1 c = Fin a \<and> dt1 (doubleExtents c) = Fin a' \<and> 0 < a \<and> a \<le> a'"
proof -
  from assms have "posFin (UAvg c)" "posFin (UDeviation c)" "posFin (VAvg c)"
    "posFin (VDeviation c)" "posFin (WAvg c)" "posFin (Dx c)" "posFin (Dy c)" "posFin (Dz c)"
    by (simp_all add: posCell_def)
  then obtain u ud v vd w dx dy dz where
    e: "UAvg c = Fin u" "UDeviation c = Fin ud" "VAvg c = Fin v" "VDeviation c = Fin vd"
      "WAvg c = Fin w" "Dx c = Fin dx" "Dy c = Fin dy" "Dz c = Fin dz"
    and p: "0 < u" "0 < ud" "0 < v" "0 < vd" "0 < w" "0 < dx" "0 < dy" "0 < dz"
    by (auto dest!: posFinE)
  define m where "m = max (max ((\<bar>u\<bar> + ud * 2) / dx) ((\<bar>v\<bar> + vd * 2) / dy)) (\<bar>w\<bar> / dz)"
  have "0 < \<bar>w\<bar> / dz" using p by simp
  then have mpos: "0 < m" unfolding m_def by (simp add: less_max_iff_disj)
  have a: "dt1 c = Fin (1 / sqrt 3 / m)"
    using dt1_value [OF e p(6) p(7) p(8)] mpos unfolding m_def by simp
  have e2: "UAvg (doubleExtents c) = Fin u" "UDeviation (doubleExtents c) = Fin ud"
     "VAvg (doubleExtents c) = Fin v" "VDeviation (doubleExtents c)= Fin vd"
      "WAvg (doubleExtents c) = Fin w" "Dx (doubleExtents c) = Fin (2 * dx)"
      "Dy (doubleExtents c) = Fin (2 * dy)" "Dz (doubleExtents c) = Fin (2 * dz)"
    using e by (simp_all add: doubleExtents_def)
  have p2: "0 < 2 * dx" "0 < 2 * dy" "0 < 2 * dz" using p by simp_all
  have h: "\<And>x y::real. x / (2 * y) = x / y / 2" by simp
  have m2: "max (max ((\<bar>u\<bar> + ud * 2) / (2 * dx)) ((\<bar>v\<bar> + vd * 2) / (2 * dy))) (\<bar>w\<bar> / (2 * dz)) = m / 2"
    unfolding m_def h max_half ..
  have a2: "dt1 (doubleExtents c) = Fin (1 / sqrt 3 / (m / 2))"
    using dt1_value [OF e2 p2] mpos unfolding m2 by simp
  have "0 < 1 / sqrt 3 / m" using mpos by simp
  moreover have "1 / sqrt 3 / m \<le> 1 / sqrt 3 / (m / 2)" using mpos by (simp add: field_simps)
  ultimately show ?thesis using a a2 by blast
qed

lemma quad_le: "0 < z \<Longrightarrow> 0 < k \<Longrightarrow> z * z / 2 / k \<le> 2 * z * (2 * z) / 2 / (k::real)"
proof -
  assume z: "0 < z" and k: "0 < k"
  have "0 \<le> z * z" by simp
  then have "z * z / 2 \<le> 2 * z * (2 * z) / 2" by simp
  from divide_right_mono [OF this less_imp_le [OF k]] show ?thesis .
qed

lemma dt234_pos:
  assumes "posCell c"
  shows "\<exists>b b'. dt2 c = Fin b \<and> dt2 (doubleExtents c) = Fin b' \<and> 0 < b \<and> b \<le> b'"
    and "\<exists>b b'. dt3 c = Fin b \<and> dt3 (doubleExtents c) = Fin b' \<and> 0 < b \<and> b \<le> b'"
    and "\<exists>b b'. dt4 c = Fin b \<and> dt4 (doubleExtents c) = Fin b' \<and> 0 < b \<and> b \<le> b'"
proof -
  from assms have "posFin (Dx c)" "posFin (Dy c)" "posFin (Dz c)" "posFin (Kzz c)"
    "posFin (Kxxyy c)"
    by (simp_all add: posCell_def)
  then obtain dx dy dz kz kh where
    e: "Dx c = Fin dx" "Dy c = Fin dy" "Dz c = Fin dz" "Kzz c = Fin kz" "Kxxyy c = Fin kh"
    and p: "0 < dx" "0 < dy" "0 < dz" "0 < kz" "0 < kh"
    by (auto dest!: posFinE)
  have v2: "dt2 c = Fin (dz * dz / 2 / kz)" "dt2 (doubleExtents c) = Fin (2 * dz * (2 * dz) / 2 / kz)"
    using e p by (simp_all add: dt2_def doubleExtents_def Cmax_def)
  have v3: "dt3 c = Fin (dx * dx / 2 / kh)" "dt3 (doubleExtents c) = Fin (2 * dx * (2 * dx) / 2 / kh)"
    using e p by (simp_all add: dt3_def doubleExtents_def Cmax_def)
  have v4: "dt4 c = Fin (dy * dy / 2 / kh)" "dt4 (doubleExtents c) = Fin (2 * dy * (2 * dy) / 2 / kh)"
    using e p by (simp_all add: dt4_def doubleExtents_def Cmax_def)
  have pz: "0 < dz * dz / 2 / kz" "0 < dx * dx / 2 / kh" "0 < dy * dy / 2 / kh"
    using p by simp_all
  show "\<exists>b b'. dt2 c = Fin b \<and> dt2 (doubleExtents c) = Fin b' \<and> 0 < b \<and> b \<le> b'"
    using v2 pz(1) quad_le [OF p(3) p(4)] by blast
  show "\<exists>b b'. dt3 c = Fin b \<and> dt3 (doubleExtents c) = Fin b' \<and> 0 < b \<and> b \<le> b'"
    using v3 pz(2) quad_le [OF p(1) p(5)] by blast
  show "\<exists>b b'. dt4 c = Fin b \<and> dt4 (doubleExtents c) = Fin b' \<and> 0 < b \<and> b \<le> b'"
    using v4 pz(3) quad_le [OF p(2) p(5)] by blast
qed

lemma bounds_pos:
  assumes pc: "posCell c"
  shows "\<exists>a a' b b' e e' f f'.
       dt1 c = Fin a \<and> dt1 (doubleExtents c) = Fin a' \<and> 0 < a \<and> a \<le> a' \<and>
       dt2 c = Fin b \<and> dt2 (doubleExtents c) = Fin b' \<and> 0 < b \<and> b \<le> b' \<and>
       dt3 c = Fin e \<and> dt3 (doubleExtents c) = Fin e' \<and> 0 < e \<and> e \<le> e' \<and>
       dt4 c = Fin f \<and> dt4 (doubleExtents c) = Fin f' \<and> 0 < f \<and> f \<le> f'"
  using dt1_pos [OF pc] dt234_pos [OF pc] by blast

lemma from_mono:
  assumes "\<forall>c\<in>set cs. posCell c" and "0 < t" and "t \<le> t'" and "0 < i"
  shows "\<exists>r r'. setTstepCFL_from i cs (Fin t) = Fin r \<and>
           setTstepCFL_from i (map doubleExtents cs) (Fin t') = Fin r' \<and> 0 < r \<and> r \<le> r'"
  using assms
proof (induction cs arbitrary: i t t')
  case Nil
  then show ?case by simp
next
  case (Cons c cs)
  from Cons.prems have pc: "posCell c" and pcs: "\<forall>c\<in>set cs. posCell c" by simp_all
  from bounds_pos [OF pc] obtain a a' b b' e e' f f' where
    v: "dt1 c = Fin a" "dt1 (doubleExtents c) = Fin a'" 
       "dt2 c = Fin b" "dt2 (doubleExtents c) = Fin b'" 
       "dt3 c = Fin e" "dt3 (doubleExtents c) = Fin e'" 
       "dt4 c = Fin f" "dt4 (doubleExtents c) = Fin f'" 
    and q: "0 < a" "0 < b" "0 < e" "0 < f"
    and l: "a \<le> a'" "b \<le> b'" "e \<le> e'" "f \<le> f'"
    by blast
  define n where "n = min (min (min (min t a) b) e) f"
  define n' where "n' = min (min (min (min t' a') b') e') f'"
  have n0: "0 < n" unfolding n_def using q Cons.prems(2) by simp
  have nn: "n \<le> n'" unfolding n_def n'_def
    by (intro min.mono l Cons.prems(3))
  have s: "0 < Suc i" by simp
  have step: "setTstepCFL_from i (c # cs) (Fin t) = setTstepCFL_from (Suc i) cs (Fin n)"
    using Cons.prems(4) v unfolding n_def by (simp add: amin5)
  have step': "setTstepCFL_from i (map doubleExtents (c # cs)) (Fin t') =
      setTstepCFL_from (Suc i) (map doubleExtents cs) (Fin n')"
    using Cons.prems(4) v unfolding n'_def by (simp add: amin5)
  from Cons.IH [OF pcs n0 nn s] show ?case unfolding step step' .
qed

lemma from_mono0:
  assumes "\<forall>c\<in>set cs. posCell c" and "cs \<noteq> []"
  shows "\<exists>r r'. setTstepCFL_from 0 cs dt = Fin r \<and>
           setTstepCFL_from 0 (map doubleExtents cs) dt' = Fin r' \<and> 0 < r \<and> r \<le> r'"
proof (cases cs)
  case Nil
  with assms show ?thesis by simp
next
  case (Cons c cs')
  from assms Cons have pc: "posCell c" and pcs: "\<forall>c\<in>set cs'. posCell c" by simp_all
  from bounds_pos [OF pc] obtain a a' b b' e e' f f' where
    v: "dt1 c = Fin a" "dt1 (doubleExtents c) = Fin a'" 
       "dt2 c = Fin b" "dt2 (doubleExtents c) = Fin b'" 
       "dt3 c = Fin e" "dt3 (doubleExtents c) = Fin e'" 
       "dt4 c = Fin f" "dt4 (doubleExtents c) = Fin f'" 
    and q: "0 < a" "0 < b" "0 < e" "0 < f"
    and l: "a \<le> a'" "b \<le> b'" "e \<le> e'" "f \<le> f'"
    by blast
  define n where "n = min (min (min a b) e) f"
  define n' where "n' = min (min (min a' b') e') f'"
  have n0: "0 < n" unfolding n_def using q by simp
  have nn: "n \<le> n'" unfolding n_def n'_def
    by (intro min.mono l)
  have s: "0 < Suc 0" by simp
  have step: "setTstepCFL_from 0 cs dt = setTstepCFL_from (Suc 0) cs' (Fin n)"
    using Cons v unfolding n_def by (simp add: amin4)
  have step': "setTstepCFL_from 0 (map doubleExtents cs) dt' =
      setTstepCFL_from (Suc 0) (map doubleExtents cs') (Fin n')"
    using Cons v unfolding n'_def by (simp add: amin4)
  from from_mono [OF pcs n0 nn s] show ?thesis unfolding step step' .
qed

text \<open>
  Claim C6: for every domain whose cells have finite positive extents, winds, deviations
  and diffusivities, doubling every cell's extents while the winds, deviations and
  diffusivities stay fixed never decreases the \<open>Dt\<close> that \<open>setTstepCFL\<close> computes: the new
  \<open>Dt\<close> is equal to the old one (the domain without cells, whose \<open>Dt\<close> is left as it was)
  or greater.
\<close>

theorem setTstepCFL_doubling_monotone:
  assumes "\<forall>c\<in>set (Cells d). posCell c"
  shows "Dt (setTstepCFL (d\<lparr>Cells := map doubleExtents (Cells d)\<rparr>)) = Dt (setTstepCFL d) \<or>
         Dt (setTstepCFL d) < Dt (setTstepCFL (d\<lparr>Cells := map doubleExtents (Cells d)\<rparr>))"
proof (cases "Cells d = []")
  case True
  then show ?thesis by (simp add: setTstepCFL_def)
next
  case False
  from from_mono0 [OF assms False, of "Dt d" "Dt d"] obtain r r' where
    "setTstepCFL_from 0 (Cells d) (Dt d) = Fin r"
    "setTstepCFL_from 0 (map doubleExtents (Cells d)) (Dt d) = Fin r'" "r \<le> r'"
    by blast
  then show ?thesis
    by (auto simp add: setTstepCFL_def)
qed


theorem setTstepCFL_doubling_monotone_witness:
  "list_all posCell (Cells (domainOf [windyCell])) \<and>
   (Dt (setTstepCFL ((domainOf [windyCell])\<lparr>Cells :=
        map doubleExtents (Cells (domainOf [windyCell]))\<rparr>)) =
      Dt (setTstepCFL (domainOf [windyCell])) \<or>
    Dt (setTstepCFL (domainOf [windyCell])) <
      Dt (setTstepCFL ((domainOf [windyCell])\<lparr>Cells :=
        map doubleExtents (Cells (domainOf [windyCell]))\<rparr>)))"
proof -
  have h: "\<forall>c\<in>set (Cells (domainOf [windyCell])). posCell c"
    by (simp add: domainOf_def windyCell_def newCell_def posCell_def)
  from h setTstepCFL_doubling_monotone [OF h] show ?thesis
    unfolding list_all_iff by blast
qed

section \<open>Properties of the topology builder\<close>

lemma deref_ok:
  "list_all (posExtentsAt h) as \<Longrightarrow> \<exists>ns. deref h as = Inr ns \<and> list_all posExtents ns"
proof (induction as)
  case Nil
  then show ?case by simp
next
  case (Cons a as)
  then obtain n where n: "h a = Some n" "posExtents n" by (auto split: option.splits)
  from Cons obtain ns where ns: "deref h as = Inr ns" "list_all posExtents ns" by auto
  show ?case using n ns by simp
qed

lemma frac_unit:
  assumes "posFin a" "posFin b"
  shows "Fin 0 < min_f64 (a / b) (Fin 1) \<and> min_f64 (a / b) (Fin 1) \<le> Fin 1"
proof -
  from assms obtain x y where "a = Fin x" "0 < x" "b = Fin y" "0 < y"
    by (auto dest!: posFinE)
  then show ?thesis by (simp add: min_f64_def)
qed

lemma frac_area:
  assumes "posFin a" "posFin a'" "posFin b" "posFin b'"
  shows "Fin 0 < min_f64 ((a * a') / (b * b')) (Fin 1) \<and>
         min_f64 ((a * a') / (b * b')) (Fin 1) \<le> Fin 1"
proof -
  from assms obtain x x' y y' where "a = Fin x" "0 < x" "a' = Fin x'" "0 < x'"
     "b = Fin y" "0 < y" "b' = Fin y'" "0 < y'"
    by (auto dest!: posFinE)
  then show ?thesis by (simp add: min_f64_def)
qed

text \<open>
  Claim C8: for every cell with strictly positive extents all of whose neighbours have
  strictly positive extents, \<open>neighborInfo\<close> returns, and every entry of the seven
  fraction arrays it computes (\<open>WestFrac\<close>, \<open>EastFrac\<close>, \<open>NorthFrac\<close>, \<open>SouthFrac\<close>,
  \<open>AboveFrac\<close>, \<open>BelowFrac\<close>, \<open>GroundLevelFrac\<close>) lies in the interval \<open>(0, 1]\<close>.
\<close>

theorem neighborInfo_fractions_in_unit_interval:
  assumes c: "posExtents c" and n: "list_all (posExtentsAt h) (neighbors c)"
  shows "\<exists>c'. neighborInfo h c = Inr c' \<and>
           list_all (\<lambda>f. Fin 0 < f \<and> f \<le> Fin 1) (fractions c')"
proof -
  from n have l: "list_all (posExtentsAt h) (West c)" "list_all (posExtentsAt h) (East c)"
    "list_all (posExtentsAt h) (North c)" "list_all (posExtentsAt h) (South c)"
    "list_all (posExtentsAt h) (Above c)" "list_all (posExtentsAt h) (Below c)"
    "list_all (posExtentsAt h) (GroundLevel c)"
    by (simp_all add: neighbors_def)
  from deref_ok [OF l(1)] obtain ws where ws: "deref h (West c) = Inr ws" "list_all posExtents ws" by blast
  from deref_ok [OF l(2)] obtain es where es: "deref h (East c) = Inr es" "list_all posExtents es" by blast
  from deref_ok [OF l(3)] obtain ns where ns: "deref h (North c) = Inr ns" "list_all posExtents ns" by blast
  from deref_ok [OF l(4)] obtain ss where ss: "deref h (South c) = Inr ss" "list_all posExtents ss" by blast
  from deref_ok [OF l(5)] obtain us where us: "deref h (Above c) = Inr us" "list_all posExtents us" by blast
  from deref_ok [OF l(6)] obtain bs where bs: "deref h (Below c) = Inr bs" "list_all posExtents bs" by blast
  from deref_ok [OF l(7)] obtain gs where gs: "deref h (GroundLevel c) = Inr gs" "list_all posExtents gs" by blast
  have fy: "\<And>xs. list_all posExtents xs \<Longrightarrow>
     list_all (\<lambda>f. Fin 0 < f \<and> f \<le> Fin 1) (map (\<lambda>e. min_f64 (Dy e / Dy c) (Fin 1)) xs)"
    using c by (simp add: list_all_iff posExtents_def frac_unit)
  have fx: "\<And>xs. list_all posExtents xs \<Longrightarrow>
     list_all (\<lambda>f. Fin 0 < f \<and> f \<le> Fin 1) (map (\<lambda>e. min_f64 (Dx e / Dx c) (Fin 1)) xs)"
    using c by (simp add: list_all_iff posExtents_def frac_unit)
  have fa: "\<And>xs. list_all posExtents xs \<Longrightarrow>
     list_all (\<lambda>f. Fin 0 < f \<and> f \<le> Fin 1)
       (map (\<lambda>e. min_f64 ((Dx e * Dy e) / (Dx c * Dy c)) (Fin 1)) xs)"
    using c by (simp add: list_all_iff posExtents_def frac_area)
  show ?thesis
    using ws es ns ss us bs gs fy [OF ws(2)] fy [OF es(2)] fx [OF ns(2)] fx [OF ss(2)]
      fa [OF us(2)] fa [OF bs(2)] fa [OF gs(2)]
    by (simp add: neighborInfo_def fractions_def)
qed


theorem neighborInfo_fractions_in_unit_interval_witness:
  "posExtents (windyCell\<lparr>East := [1], North := [2], Above := [1, 2]\<rparr>) \<and>
   list_all (posExtentsAt twoCellStore)
     (neighbors (windyCell\<lparr>East := [1], North := [2], Above := [1, 2]\<rparr>)) \<and>
   (\<exists>c'. neighborInfo twoCellStore
            (windyCell\<lparr>East := [1], North := [2], Above := [1, 2]\<rparr>) = Inr c' \<and>
         list_all (\<lambda>f. Fin 0 < f \<and> f \<le> Fin 1) (fractions c'))"
proof -
  have c: "posExtents (windyCell\<lparr>East := [1], North := [2], Above := [1, 2]\<rparr>)"
    by (simp add: posExtents_def windyCell_def newCell_def)
  have n: "list_all (posExtentsAt twoCellStore)
     (neighbors (windyCell\<lparr>East := [1], North := [2], Above := [1, 2]\<rparr>))"
    by (simp add: neighbors_def twoCellStore_def posExtents_def windyCell_def newCell_def)
  from c n neighborInfo_fractions_in_unit_interval [OF c n] show ?thesis by blast
qed

section \<open>The advective bound\<close>

text \<open>
  Claim C3, as stated: the advective bound of a cell is Courant / sqrt 3 / the maximum
  over the three axes of (mean wind + 2 * turbulent deviation) / extent. This fails on
  two counts. The code takes the absolute value of the mean wind: for a cell whose only
  wind is 10 m/s towards the west (\<open>UAvg = -10\<close>) the code's bound is finite while the
  formula, whose largest normalized speed is 0, is infinite. And the vertical term of the
  code has no deviation at all: for a pure updraft the code's bound is the same whatever
  the vertical deviation, while the formula's bound with a vertical deviation of 1 is a
  third of it.
\<close>

theorem advective_bound_spec_counterexample:
  "dt1 easterlyCell = Fin (1 / sqrt 3 / (1 / 100)) \<and>
   advectiveBound_spec easterlyCell (Fin 0) = PInf \<and>
   dt1 updraftCell = Fin (1 / sqrt 3 / (1 / 100)) \<and>
   advectiveBound_spec updraftCell (Fin 1) = Fin (1 / sqrt 3 / (3 / 100))"
  by (simp add: dt1_def advectiveBound_spec_def easterlyCell_def updraftCell_def newCell_def
      Cmax_def sqrt3_def max_f64_def)

text \<open>
  Claim C3, amended: for a cell with finite winds and deviations and finite positive
  extents, the advective bound that \<open>setTstepCFL\<close> computes is \<open>1 / sqrt 3 / m\<close>, where
  \<open>m\<close> is the maximum of \<open>(|UAvg| + 2 * UDeviation) / Dx\<close>, \<open>(|VAvg| + 2 * VDeviation) / Dy\<close>
  and \<open>|WAvg| / Dz\<close>, and it is \<open>+Inf\<close> when \<open>m\<close> is zero; it is the first of the four
  bounds whose minimum is the \<open>Dt\<close> of a one-cell domain.
\<close>

theorem advective_bound_value:
  assumes "UAvg c = Fin u" "UDeviation c = Fin ud" "VAvg c = Fin v" "VDeviation c = Fin vd"
      "WAvg c = Fin w" "Dx c = Fin dx" "Dy c = Fin dy" "Dz c = Fin dz"
      "0 < dx" "0 < dy" "0 < dz"
  shows "dt1 c =
     (if max (max ((\<bar>u\<bar> + ud * 2) / dx) ((\<bar>v\<bar> + vd * 2) / dy)) (\<bar>w\<bar> / dz) = 0 then PInf
      else Fin (1 / sqrt 3 /
             max (max ((\<bar>u\<bar> + ud * 2) / dx) ((\<bar>v\<bar> + vd * 2) / dy)) (\<bar>w\<bar> / dz))) \<and>
     Dt (setTstepCFL (d\<lparr>Cells := [c]\<rparr>)) = amin (dt1 c) [dt2 c, dt3 c, dt4 c]"
  using dt1_value [OF assms] by (simp add: setTstepCFL_def)

theorem advective_bound_value_witness:
  "UAvg windyCell = Fin 5 \<and> UDeviation windyCell = Fin 1 \<and> VAvg windyCell = Fin 3 \<and>
   VDeviation windyCell = Fin 1 \<and> WAvg windyCell = Fin 1 \<and> Dx windyCell = Fin 1000 \<and>
   Dy windyCell = Fin 1000 \<and> Dz windyCell = Fin 50 \<and>
   dt1 windyCell = Fin (1 / sqrt 3 / (1 / 50))"
proof -
  have e: "UAvg windyCell = Fin 5" "UDeviation windyCell = Fin 1" "VAvg windyCell = Fin 3"
   "VDeviation windyCell = Fin 1" "WAvg windyCell = Fin 1" "Dx windyCell = Fin 1000"
   "Dy windyCell = Fin 1000" "Dz windyCell = Fin 50"
    by (simp_all add: windyCell_def newCell_def)
  have p: "(0::real) < 1000" "(0::real) < 1000" "(0::real) < 50" by simp_all
  from advective_bound_value [OF e p, of "domainOf []"] e show ?thesis by simp
qed

section \<open>Degenerate bounds\<close>

lemma posValE: "posVal a \<Longrightarrow> \<exists>x. a = Val (Fin x) \<and> 0 < x"
  by (cases a rule: posVal.cases) (auto dest: posFinE)

lemma finiteValE:
  "finiteVal a \<Longrightarrow> \<exists>x. plain a = Fin x \<and> (a = Val (Fin x) \<or> a = NegZero \<and> x = 0)"
  by (cases a rule: finiteVal.cases) auto

lemma posOrPlusZeroE: "posOrPlusZero a \<Longrightarrow> \<exists>x. a = Val (Fin x) \<and> 0 \<le> x"
  by (cases a rule: posOrPlusZero.cases) auto

lemma speed_term:
  assumes "finiteVal w" "finiteVal dv" "plain w = Fin u" "plain dv = Fin ud" "0 < dx"
  shows "(\<bar>w\<bar> + dv * Val (Fin 2)) / Val (Fin dx) = Val (Fin ((\<bar>u\<bar> + ud * 2) / dx))"
proof -
  from assms(1,3) have a: "\<bar>w\<bar> = Val (Fin \<bar>u\<bar>)"
    by (cases w rule: finiteVal.cases) auto
  from assms(2,4) have b: "plain (dv * Val (Fin 2)) = Fin (ud * 2)"
    by (cases dv rule: finiteVal.cases) (auto simp add: times_signed64_def zeroOf_def)
  have c: "Val (Fin \<bar>u\<bar>) + dv * Val (Fin 2) = Val (Fin (\<bar>u\<bar> + ud * 2))"
    by (simp add: plus_signed64_def b)
  show ?thesis unfolding a c using assms(5)
    by (simp add: divide_signed64_def zeroOf_def)
qed

lemma vertical_term:
  assumes "finiteVal w" "plain w = Fin u" "0 < dz"
  shows "\<bar>w\<bar> / Val (Fin dz) = Val (Fin (\<bar>u\<bar> / dz))"
proof -
  from assms(1,2) have a: "\<bar>w\<bar> = Val (Fin \<bar>u\<bar>)"
    by (cases w rule: finiteVal.cases) auto
  show ?thesis unfolding a using assms(3) by (simp add: divide_signed64_def zeroOf_def)
qed

lemma max3_signed:
  "max_f64 (Val (Fin a)) [Val (Fin b), Val (Fin c)] = Val (Fin (max (max a b) c))"
  by (simp add: max_f64_def max_def less_signed64_def)

lemma courant_over_speed:
  assumes "0 \<le> m"
  shows "Val Cmax / Val sqrt3 / Val (Fin m) = Val (if m = 0 then PInf else Fin (1 / sqrt 3 / m))"
  using assms by (simp add: Cmax_def sqrt3_def divide_signed64_def zeroOf_def)

lemma dt1_signed_physical:
  assumes "physicalCell c"
  shows "Val (Fin 0) < dt1_signed c"
    and "stillAir c \<Longrightarrow> dt1_signed c = Val PInf"
proof -
  from assms have f: "finiteVal (UAvg c)" "finiteVal (UDeviation c)" "finiteVal (VAvg c)"
    "finiteVal (VDeviation c)" "finiteVal (WAvg c)"
    and "posVal (Dx c)" "posVal (Dy c)" "posVal (Dz c)"
    by (simp_all add: physicalCell_def)
  then obtain u ud v vd w dx dy dz where
    e: "plain (UAvg c) = Fin u" "plain (UDeviation c) = Fin ud" "plain (VAvg c) = Fin v"
      "plain (VDeviation c) = Fin vd" "plain (WAvg c) = Fin w"
    and x: "Dx c = Val (Fin dx)" "Dy c = Val (Fin dy)" "Dz c = Val (Fin dz)"
    and p: "0 < dx" "0 < dy" "0 < dz"
    by (auto dest!: posValE finiteValE)
  define m where "m = max (max ((\<bar>u\<bar> + ud * 2) / dx) ((\<bar>v\<bar> + vd * 2) / dy)) (\<bar>w\<bar> / dz)"
  have "0 \<le> \<bar>w\<bar> / dz" using p by simp
  then have m0: "0 \<le> m" unfolding m_def by (simp add: le_max_iff_disj)
  have v: "dt1_signed c = Val (if m = 0 then PInf else Fin (1 / sqrt 3 / m))"
    unfolding dt1_signed_def x
      speed_term [OF f(1) f(2) e(1) e(2) p(1)] speed_term [OF f(3) f(4) e(3) e(4) p(2)]
      vertical_term [OF f(5) e(5) p(3)] max3_signed
    using courant_over_speed [OF m0] unfolding m_def .
  show "Val (Fin 0) < dt1_signed c"
  proof (cases "m = 0")
    case True
    then show ?thesis using v by (simp add: less_signed64_def)
  next
    case False
    with m0 have "0 < m" by simp
    then have "0 < 1 / sqrt 3 / m" by simp
    then show ?thesis using v False by (simp add: less_signed64_def)
  qed
  show "dt1_signed c = Val PInf" if "stillAir c"
  proof -
    from that e have "u = 0" "v = 0" "w = 0" "ud = 0" "vd = 0" by (simp_all add: stillAir_def)
    then have "m = 0" unfolding m_def by simp
    then show ?thesis using v by simp
  qed
qed

lemma diffusion_bound_signed:
  assumes "0 < z" "0 \<le> k"
  shows "Val (Fin 0) < Val Cmax * Val (Fin z) * Val (Fin z) / Val (Fin 2) / Val (Fin k)"
    and "k = 0 \<Longrightarrow> Val Cmax * Val (Fin z) * Val (Fin z) / Val (Fin 2) / Val (Fin k) = Val PInf"
  using assms
  by (simp_all add: Cmax_def times_signed64_def divide_signed64_def zeroOf_def less_signed64_def)

lemma dt234_signed_physical:
  assumes "physicalCell c"
  shows "Val (Fin 0) < dt2_signed c" "Val (Fin 0) < dt3_signed c" "Val (Fin 0) < dt4_signed c"
    and "Kzz c = Val (Fin 0) \<Longrightarrow> dt2_signed c = Val PInf"
    and "Kxxyy c = Val (Fin 0) \<Longrightarrow> dt3_signed c = Val PInf"
    and "Kxxyy c = Val (Fin 0) \<Longrightarrow> dt4_signed c = Val PInf"
proof -
  from assms have "posVal (Dx c)" "posVal (Dy c)" "posVal (Dz c)" "posOrPlusZero (Kzz c)"
    "posOrPlusZero (Kxxyy c)"
    by (simp_all add: physicalCell_def)
  then obtain dx dy dz kz kh where
    e: "Dx c = Val (Fin dx)" "Dy c = Val (Fin dy)" "Dz c = Val (Fin dz)"
      "Kzz c = Val (Fin kz)" "Kxxyy c = Val (Fin kh)"
    and p: "0 < dx" "0 < dy" "0 < dz" "0 \<le> kz" "0 \<le> kh"
    by (auto dest!: posValE posOrPlusZeroE)
  show "Val (Fin 0) < dt2_signed c"
    unfolding dt2_signed_def e by (rule diffusion_bound_signed(1) [OF p(3) p(4)])
  show "Val (Fin 0) < dt3_signed c"
    unfolding dt3_signed_def e by (rule diffusion_bound_signed(1) [OF p(1) p(5)])
  show "Val (Fin 0) < dt4_signed c"
    unfolding dt4_signed_def e by (rule diffusion_bound_signed(1) [OF p(2) p(5)])
  show "dt2_signed c = Val PInf" if "Kzz c = Val (Fin 0)"
    using that diffusion_bound_signed(2) [OF p(3) p(4)] unfolding dt2_signed_def e by simp
  show "dt3_signed c = Val PInf" if "Kxxyy c = Val (Fin 0)"
    using that diffusion_bound_signed(2) [OF p(1) p(5)] unfolding dt3_signed_def e by simp
  show "dt4_signed c = Val PInf" if "Kxxyy c = Val (Fin 0)"
    using that diffusion_bound_signed(2) [OF p(2) p(5)] unfolding dt4_signed_def e by simp
qed

lemma f64_le_trans: "(a::float64) \<le> b \<Longrightarrow> b \<le> c \<Longrightarrow> a \<le> c"
  by (cases a; cases b; cases c) auto

lemma f64_le_refl: "Fin 0 < a \<Longrightarrow> (a::float64) \<le> a"
  by (cases a) auto

lemma f64_less_le: "(a::float64) < b \<Longrightarrow> a \<le> b"
  by (cases a; cases b) auto

lemma f64_not_less: "Fin 0 < a \<Longrightarrow> Fin 0 < b \<Longrightarrow> \<not> (a::float64) < b \<Longrightarrow> b \<le> a"
  by (cases a; cases b) auto

lemma signed_le_trans: "(a::signed64) \<le> b \<Longrightarrow> b \<le> c \<Longrightarrow> a \<le> c"
  unfolding less_eq_signed64_def by (rule f64_le_trans)

lemma signed_le_refl: "Val (Fin 0) < a \<Longrightarrow> (a::signed64) \<le> a"
  unfolding less_eq_signed64_def less_signed64_def by (simp add: f64_le_refl)

lemma signed_less_le: "(a::signed64) < b \<Longrightarrow> a \<le> b"
  unfolding less_eq_signed64_def less_signed64_def by (rule f64_less_le)

lemma signed_not_less:
  "Val (Fin 0) < a \<Longrightarrow> Val (Fin 0) < b \<Longrightarrow> \<not> (a::signed64) < b \<Longrightarrow> b \<le> a"
  unfolding less_eq_signed64_def less_signed64_def by (simp add: f64_not_less)

lemma amin_pos:
  assumes "Val (Fin 0) < m" and "list_all (\<lambda>x. Val (Fin 0) < x) xs"
  shows "Val (Fin 0) < amin m xs \<and> amin m xs \<le> m \<and> list_all (\<lambda>x. amin m xs \<le> x) xs"
  using assms
proof (induction xs arbitrary: m)
  case Nil
  then show ?case by (simp add: amin_def signed_le_refl)
next
  case (Cons x xs)
  from Cons.prems have x: "Val (Fin 0) < x" and xs: "list_all (\<lambda>x. Val (Fin 0) < x) xs"
    by simp_all
  define m' where "m' = (if x < m then x else m)"
  have m': "Val (Fin 0) < m'" using x Cons.prems(1) by (simp add: m'_def)
  have le: "m' \<le> m" "m' \<le> x"
    using x Cons.prems(1)
    by (auto simp add: m'_def signed_less_le signed_le_refl signed_not_less)
  have u: "amin m (x # xs) = amin m' xs" by (simp add: amin_def m'_def)
  from Cons.IH [OF m' xs] have ih: "Val (Fin 0) < amin m' xs" "amin m' xs \<le> m'"
    "list_all (\<lambda>x. amin m' xs \<le> x) xs" by simp_all
  show ?case unfolding u using ih le by (auto intro: signed_le_trans)
qed

lemma bounds_physical: "physicalCell c \<Longrightarrow> list_all (\<lambda>x. Val (Fin 0) < x) (bounds c)"
  by (simp add: bounds_def dt1_signed_physical(1) dt234_signed_physical(1,2,3))

lemma from_physical:
  assumes "list_all physicalCell cs" and "Val (Fin 0) < dt" and "0 < i"
  shows "Val (Fin 0) < setTstepCFL_signed_from i cs dt \<and> setTstepCFL_signed_from i cs dt \<le> dt \<and>
         list_all (\<lambda>c. list_all (\<lambda>x. setTstepCFL_signed_from i cs dt \<le> x) (bounds c)) cs"
  using assms
proof (induction cs arbitrary: i dt)
  case Nil
  then show ?case by (simp add: signed_le_refl)
next
  case (Cons c cs)
  from Cons.prems have pc: "physicalCell c" and pcs: "list_all physicalCell cs" by simp_all
  define n where "n = amin dt (bounds c)"
  from amin_pos [OF Cons.prems(2) bounds_physical [OF pc]]
  have n: "Val (Fin 0) < n" "n \<le> dt" "list_all (\<lambda>x. n \<le> x) (bounds c)"
    by (simp_all add: n_def)
  have step: "setTstepCFL_signed_from i (c # cs) dt = setTstepCFL_signed_from (Suc i) cs n"
    using Cons.prems(3) by (simp add: n_def bounds_def)
  have s: "0 < Suc i" by simp
  from Cons.IH [OF pcs n(1) s]
  have ih: "Val (Fin 0) < setTstepCFL_signed_from (Suc i) cs n"
    "setTstepCFL_signed_from (Suc i) cs n \<le> n"
    "list_all (\<lambda>c. list_all (\<lambda>x. setTstepCFL_signed_from (Suc i) cs n \<le> x) (bounds c)) cs"
    by simp_all
  have "list_all (\<lambda>x. setTstepCFL_signed_from (Suc i) cs n \<le> x) (bounds c)"
    using n(3) ih(2) unfolding list_all_iff by (blast intro: signed_le_trans)
  moreover have "setTstepCFL_signed_from (Suc i) cs n \<le> dt"
    using ih(2) n(2) by (rule signed_le_trans)
  ultimately show ?case unfolding step using ih by simp
qed

lemma from_physical0:
  assumes "list_all physicalCell (c # cs)"
  shows "Val (Fin 0) < setTstepCFL_signed_from 0 (c # cs) dt \<and>
         list_all (\<lambda>c'. list_all (\<lambda>x. setTstepCFL_signed_from 0 (c # cs) dt \<le> x) (bounds c'))
           (c # cs)"
proof -
  from assms have pc: "physicalCell c" and pcs: "list_all physicalCell cs" by simp_all
  define n where "n = amin (dt1_signed c) [dt2_signed c, dt3_signed c, dt4_signed c]"
  have b: "list_all (\<lambda>x. Val (Fin 0) < x) [dt2_signed c, dt3_signed c, dt4_signed c]"
    using dt234_signed_physical(1,2,3) [OF pc] by simp
  from amin_pos [OF dt1_signed_physical(1) [OF pc] b]
  have n: "Val (Fin 0) < n" "list_all (\<lambda>x. n \<le> x) (bounds c)"
    by (simp_all add: n_def bounds_def)
  have step: "setTstepCFL_signed_from 0 (c # cs) dt = setTstepCFL_signed_from (Suc 0) cs n"
    by (simp add: n_def)
  have s: "0 < Suc 0" by simp
  from from_physical [OF pcs n(1) s]
  have ih: "Val (Fin 0) < setTstepCFL_signed_from (Suc 0) cs n"
    "setTstepCFL_signed_from (Suc 0) cs n \<le> n"
    "list_all (\<lambda>c. list_all (\<lambda>x. setTstepCFL_signed_from (Suc 0) cs n \<le> x) (bounds c)) cs"
    by simp_all
  have "list_all (\<lambda>x. setTstepCFL_signed_from (Suc 0) cs n \<le> x) (bounds c)"
    using n(2) ih(2) unfolding list_all_iff by (blast intro: signed_le_trans)
  then show ?thesis unfolding step using ih by simp
qed

lemma amin_mem: "amin m xs \<in> set (m # xs)"
proof (induction xs arbitrary: m)
  case Nil
  then show ?case by (simp add: amin_def)
next
  case (Cons x xs)
  have u: "amin m (x # xs) = amin (if x < m then x else m) xs" by (simp add: amin_def)
  from Cons [of "if x < m then x else m"] show ?case unfolding u by auto
qed

lemma from_mem:
  "0 < i \<Longrightarrow> setTstepCFL_signed_from i cs dt \<in> set (dt # concat (map bounds cs))"
proof (induction cs arbitrary: i dt)
  case Nil
  then show ?case by simp
next
  case (Cons c cs)
  have step: "setTstepCFL_signed_from i (c # cs) dt =
      setTstepCFL_signed_from (Suc i) cs (amin dt (bounds c))"
    using Cons.prems by (simp add: bounds_def)
  have s: "0 < Suc i" by simp
  from Cons.IH [OF s, of "amin dt (bounds c)"] amin_mem [of dt "bounds c"]
  show ?case unfolding step by auto
qed

lemma from_mem0: "setTstepCFL_signed_from 0 (c # cs) dt \<in> set (concat (map bounds (c # cs)))"
proof -
  have step: "setTstepCFL_signed_from 0 (c # cs) dt =
      setTstepCFL_signed_from (Suc 0) cs (amin (dt1_signed c) [dt2_signed c, dt3_signed c, dt4_signed c])"
    by simp
  have s: "0 < Suc 0" by simp
  from from_mem [OF s, of cs "amin (dt1_signed c) [dt2_signed c, dt3_signed c, dt4_signed c]"]
    amin_mem [of "dt1_signed c" "[dt2_signed c, dt3_signed c, dt4_signed c]"]
  show ?thesis unfolding step by (auto simp add: bounds_def)
qed

text \<open>
  Claim C4, as stated: a zero or non-positive diffusivity or speed gives an infinite
  stability bound, which is therefore excluded from the minimum, and a zero diffusivity
  never makes \<open>Dt\<close> zero or undefined. Nothing guards the divisions by the
  diffusivities. With a negative vertical diffusivity the bound is a negative number
  and becomes the \<open>Dt\<close> of the domain; with a vertical diffusivity of \<open>-0\<close>, which is a
  zero, the bound is \<open>-Inf\<close> and becomes the \<open>Dt\<close> of the domain.
\<close>

theorem setTstepCFL_nonpositive_diffusivity_counterexample:
  "dt2_signed antiDiffusiveCell = Val (Fin (- 5000)) \<and>
   Dt (setTstepCFL_signed (domainOf_signed [antiDiffusiveCell])) = Val (Fin (- 5000)) \<and>
   plain (Kzz negativeZeroCell) = Fin 0 \<and>
   dt2_signed negativeZeroCell = Val NInf \<and>
   Dt (setTstepCFL_signed (domainOf_signed [negativeZeroCell])) = Val NInf"
proof -
  have a: "dt1_signed antiDiffusiveCell = Val PInf" "dt2_signed antiDiffusiveCell = Val (Fin (- 5000))"
    "dt3_signed antiDiffusiveCell = Val (Fin 5000)" "dt4_signed antiDiffusiveCell = Val (Fin 5000)"
    by (simp_all add: dt1_signed_def dt2_signed_def dt3_signed_def dt4_signed_def
        antiDiffusiveCell_def newCell_signed_def Cmax_def sqrt3_def max_f64_def
        plus_signed64_def times_signed64_def divide_signed64_def less_signed64_def zeroOf_def)
  have b: "dt1_signed negativeZeroCell = Val PInf" "dt2_signed negativeZeroCell = Val NInf"
    "dt3_signed negativeZeroCell = Val (Fin 5000)" "dt4_signed negativeZeroCell = Val (Fin 5000)"
    by (simp_all add: dt1_signed_def dt2_signed_def dt3_signed_def dt4_signed_def
        negativeZeroCell_def newCell_signed_def Cmax_def sqrt3_def max_f64_def
        plus_signed64_def times_signed64_def divide_signed64_def less_signed64_def zeroOf_def)
  have c: "plain (Kzz negativeZeroCell) = Fin 0"
    by (simp add: negativeZeroCell_def newCell_signed_def)
  show ?thesis
    by (simp add: setTstepCFL_signed_def domainOf_signed_def a b c amin_def less_signed64_def)
qed

text \<open>
  Claim C4, amended: in a domain with at least one cell whose cells have finite positive
  extents, finite winds and deviations of any sign (either zero included), and
  diffusivities that are positive numbers or \<open>+0\<close>, a vertical diffusivity of \<open>+0\<close> makes
  the vertical diffusion bound \<open>+Inf\<close>, a horizontal diffusivity of \<open>+0\<close> makes both
  horizontal diffusion bounds \<open>+Inf\<close>, and a cell without wind and deviation has the
  advective bound \<open>+Inf\<close>; the \<open>Dt\<close> that \<open>setTstepCFL\<close> computes (it has no failing
  path) is one of the bounds, is at most every bound of every cell, and is strictly
  positive: an infinite bound never lowers it, and it is never zero or NaN.
\<close>

theorem setTstepCFL_zero_terms_excluded:
  assumes "list_all physicalCell (Cells d)" and "Cells d \<noteq> []"
  shows "list_all (\<lambda>c. (Kzz c = Val (Fin 0) \<longrightarrow> dt2_signed c = Val PInf) \<and>
                      (Kxxyy c = Val (Fin 0) \<longrightarrow>
                         dt3_signed c = Val PInf \<and> dt4_signed c = Val PInf) \<and>
                      (stillAir c \<longrightarrow> dt1_signed c = Val PInf)) (Cells d) \<and>
         Val (Fin 0) < Dt (setTstepCFL_signed d) \<and>
         Dt (setTstepCFL_signed d) \<in> set (concat (map bounds (Cells d))) \<and>
         list_all (\<lambda>c. list_all (\<lambda>x. Dt (setTstepCFL_signed d) \<le> x) (bounds c)) (Cells d)"
proof -
  from assms(2) obtain c cs where cs: "Cells d = c # cs" by (cases "Cells d") auto
  have a: "list_all (\<lambda>c. (Kzz c = Val (Fin 0) \<longrightarrow> dt2_signed c = Val PInf) \<and>
                      (Kxxyy c = Val (Fin 0) \<longrightarrow>
                         dt3_signed c = Val PInf \<and> dt4_signed c = Val PInf) \<and>
                      (stillAir c \<longrightarrow> dt1_signed c = Val PInf)) (Cells d)"
    using assms(1) unfolding list_all_iff
    by (blast intro: dt1_signed_physical(2) dt234_signed_physical(4,5,6))
  have b: "Dt (setTstepCFL_signed d) = setTstepCFL_signed_from 0 (c # cs) (Dt d)"
    by (simp add: setTstepCFL_signed_def cs)
  from from_physical0 [of c cs "Dt d"] assms(1) from_mem0 [of c cs "Dt d"] a
  show ?thesis unfolding b cs by simp
qed

theorem setTstepCFL_zero_terms_excluded_witness:
  "list_all physicalCell (Cells (domainOf_signed [calmCell, gustyCell])) \<and>
   Cells (domainOf_signed [calmCell, gustyCell]) \<noteq> [] \<and>
   Kzz calmCell = Val (Fin 0) \<and> dt2_signed calmCell = Val PInf \<and>
   dt1_signed calmCell = Val PInf \<and>
   Val (Fin 0) < Dt (setTstepCFL_signed (domainOf_signed [calmCell, gustyCell]))"
proof -
  have h: "list_all physicalCell (Cells (domainOf_signed [calmCell, gustyCell]))"
    by (simp add: domainOf_signed_def physicalCell_def calmCell_def gustyCell_def
        newCell_signed_def)
  have n: "Cells (domainOf_signed [calmCell, gustyCell]) \<noteq> []"
    by (simp add: domainOf_signed_def)
  have k: "Kzz calmCell = Val (Fin 0)" "stillAir calmCell"
    by (simp_all add: calmCell_def newCell_signed_def stillAir_def)
  from setTstepCFL_zero_terms_excluded [OF h n] h n k show ?thesis
    by (simp add: domainOf_signed_def)
qed

section \<open>Properties of the output accessor\<close>

lemma f64_zero_plus: "Fin 0 + a = a"
  by (cases a) auto

lemma polLabels_TotalPM2_5:
  "polLabels ''TotalPM2_5'' = Some \<lparr>index = [iPM2_5, ipOrg, ipNH, ipS, ipNO],
         conversion = [Fin 1, Fin 1, Fin 1, Fin NtoNH4, Fin StoSO4, Fin NtoNO3]\<rparr>"
  by (simp add: polLabels_def polLabels_entries_def)

lemma emisLabels_TotalPM2_5: "emisLabels ''TotalPM2_5'' = None"
  by (simp add: emisLabels_def)

lemma getValue_TotalPM2_5:
  assumes "length (Cf c) = length polNames"
  shows "getValue env c ''TotalPM2_5'' =
           Inr (Cf c ! iPM2_5 * Fin 1 + Cf c ! ipOrg * Fin 1 + Cf c ! ipNH * Fin 1 +
                Cf c ! ipS * Fin NtoNH4 + Cf c ! ipNO * Fin StoSO4)"
proof -
  from assms have l: "length (Cf c) = 9" by (simp add: polNames_def)
  have "getValue env c ''TotalPM2_5'' =
      sumConc c [iPM2_5, ipOrg, ipNH, ipS, ipNO]
        [Fin 1, Fin 1, Fin 1, Fin NtoNH4, Fin StoSO4, Fin NtoNO3] 0 (Fin 0)"
    by (simp add: getValue.simps [of env c "''TotalPM2_5''"] polLabels_TotalPM2_5
        emisLabels_TotalPM2_5)
  also have "\<dots> = Inr (Fin 0 + Cf c ! iPM2_5 * Fin 1 + Cf c ! ipOrg * Fin 1 +
                Cf c ! ipNH * Fin 1 + Cf c ! ipS * Fin NtoNH4 + Cf c ! ipNO * Fin StoSO4)"
    using l by (simp add: elemAt_def iPM2_5_def ipOrg_def ipNH_def ipS_def ipNO_def)
  finally show ?thesis by (simp add: f64_zero_plus)
qed

text \<open>
  Claim C10: for every cell (whose \<open>Cf\<close> has one entry per pollutant, as \<open>Run\<close> and
  \<open>prepare\<close> make it), \<open>getValue "TotalPM2_5"\<close> returns exactly
  \<open>Cf[iPM2_5]*1 + Cf[ipOrg]*1 + Cf[ipNH]*1 + Cf[ipS]*NtoNH4 + Cf[ipNO]*StoSO4\<close>: the
  conversion coefficients are paired with the species indices by position, the index
  list of \<open>TotalPM2_5\<close> has five entries and its conversion list six, and the sixth
  coefficient, \<open>NtoNO3\<close>, is applied to no species.
\<close>

theorem getValue_TotalPM2_5_positional:
  assumes "length (Cf c) = length polNames"
  shows "getValue env c ''TotalPM2_5'' =
           Inr (Cf c ! iPM2_5 * Fin 1 + Cf c ! ipOrg * Fin 1 + Cf c ! ipNH * Fin 1 +
                Cf c ! ipS * Fin NtoNH4 + Cf c ! ipNO * Fin StoSO4) \<and>
         map_option (\<lambda>pc. (length (index pc), length (conversion pc), conversion pc ! 5))
           (polLabels ''TotalPM2_5'') = Some (5, 6, Fin NtoNO3)"
  using getValue_TotalPM2_5 [OF assms] by (simp add: polLabels_TotalPM2_5)

theorem getValue_TotalPM2_5_positional_witness:
  "length (Cf groundCell) = length polNames \<and>
   getValue exampleEnv groundCell ''TotalPM2_5'' =
           Inr (Cf groundCell ! iPM2_5 * Fin 1 + Cf groundCell ! ipOrg * Fin 1 +
                Cf groundCell ! ipNH * Fin 1 +
                Cf groundCell ! ipS * Fin NtoNH4 + Cf groundCell ! ipNO * Fin StoSO4)"
proof -
  have h: "length (Cf groundCell) = length polNames"
    by (simp add: groundCell_def windyCell_def newCell_def polNames_def)
  from getValue_TotalPM2_5_positional [OF h, of exampleEnv] h show ?thesis by blast
qed

section \<open>Read locks during extraction\<close>

lemma getValue_ground: "getValue exampleEnv (RLock groundCell) ''TotalPM2_5'' = Inr (Fin 0)"
proof -
  have h: "length (Cf (RLock groundCell)) = length polNames"
    by (simp add: RLock_def groundCell_def windyCell_def newCell_def polNames_def)
  have "Cf (RLock groundCell) = replicate 9 (Fin 0)"
    by (simp add: RLock_def groundCell_def windyCell_def newCell_def)
  with getValue_TotalPM2_5 [OF h, of exampleEnv] show ?thesis
    by (simp add: iPM2_5_def ipOrg_def ipNH_def ipS_def ipNO_def NtoNH4_def StoSO4_def
        mwNH4_def mwN_def mwS_def mwSO4_def)
qed

lemma RUnlock_RLock: "RUnlock (RLock c) = Inr c"
  by (simp add: RUnlock_def RLock_def)

text \<open>
  Claim C5: on every execution path of \<open>toArray\<close>, the early exit included, every read
  lock that is taken is released before the function returns. The code does not do so:
  the early exit returns between \<open>c.RLock()\<close> and \<open>c.RUnlock()\<close>. With a ground-level cell
  followed by a cell of layer 1, extracting layer 0 returns the value of the first cell
  and leaves the second cell with one reader more than before; \<open>GetGeometry\<close> does the
  same.
\<close>

theorem toArray_early_exit_keeps_read_lock:
  "toArray exampleEnv (domainOf [groundCell, upperCell]) ''TotalPM2_5'' 0 =
     Inr ([Fin 0], domainOf [groundCell, RLock upperCell]) \<and>
   GetGeometry (domainOf [groundCell, upperCell]) 0 =
     Inr ([WebMapGeom groundCell], domainOf [groundCell, RLock upperCell]) \<and>
   readerCount (RWMutex upperCell) = 0 \<and>
   readerCount (RWMutex (RLock upperCell)) = 1"
proof -
  have l: "Layer (RLock groundCell) = 0" "Layer (RLock upperCell) = 1"
    "WebMapGeom (RLock groundCell) = WebMapGeom groundCell"
    by (simp_all add: RLock_def groundCell_def upperCell_def windyCell_def newCell_def)
  have a: "toArray exampleEnv (domainOf [groundCell, upperCell]) ''TotalPM2_5'' 0 =
     Inr ([Fin 0], domainOf [groundCell, RLock upperCell])"
    by (simp add: toArray_def domainOf_def Let_def l getValue_ground RUnlock_RLock)
  have b: "GetGeometry (domainOf [groundCell, upperCell]) 0 =
     Inr ([WebMapGeom groundCell], domainOf [groundCell, RLock upperCell])"
    by (simp add: GetGeometry_def domainOf_def Let_def l RUnlock_RLock)
  have c: "readerCount (RWMutex upperCell) = 0" "readerCount (RWMutex (RLock upperCell)) = 1"
    by (simp_all add: RLock_def upperCell_def windyCell_def newCell_def)
  from a b c show ?thesis by blast
qed

section \<open>Name resolution\<close>



























section \<open>Properties of the scheduler\<close>

lemma winvI:
  assumes "length ch \<le> 1"
    and "\<And>m. m \<in> set ch \<Longrightarrow> S m"
    and "\<And>m ii. w = Looping m ii \<Longrightarrow> S m"
    and "\<And>m ii m'. w = Looping m ii \<Longrightarrow> m' \<in> set ch \<Longrightarrow> keyLess m m'"
    and "\<And>m ii. w = Looping m ii \<Longrightarrow> ii mod nprocs = p"
    and "\<And>m ii c. w = Looping m ii \<Longrightarrow> c \<in> set (assignedCells nprocs d p) \<Longrightarrow> c < ii \<Longrightarrow>
           called p m c \<in> T"
    and "\<And>m c. S m \<Longrightarrow> m \<notin> set ch \<Longrightarrow> \<forall>ii. w \<noteq> Looping m ii \<Longrightarrow>
           c \<in> set (assignedCells nprocs d p) \<Longrightarrow> called p m c \<in> T"
  shows "winv nprocs d p ch w S T"
  unfolding winv_def
proof (intro conjI allI impI ballI)
  show "length ch \<le> 1" by (rule assms(1))
next
  fix m assume "m \<in> set ch" then show "S m" by (rule assms(2))
next
  fix m ii assume "w = Looping m ii" then show "S m" by (rule assms(3))
next
  fix m ii m' assume "w = Looping m ii" "m' \<in> set ch" then show "keyLess m m'" by (rule assms(4))
next
  fix m ii assume "w = Looping m ii" then show "ii mod nprocs = p" by (rule assms(5))
next
  fix m ii c assume "w = Looping m ii" "c \<in> set (assignedCells nprocs d p)" "c < ii"
  then show "called p m c \<in> T" by (rule assms(6))
next
  fix m assume s: "S m"
  show "m \<in> set ch \<or> (\<exists>ii. w = Looping m ii) \<or>
         (\<forall>c\<in>set (assignedCells nprocs d p). called p m c \<in> T)"
  proof (cases "m \<in> set ch \<or> (\<exists>ii. w = Looping m ii)")
    case True
    then show ?thesis by blast
  next
    case False
    then have "m \<notin> set ch" "\<forall>ii. w \<noteq> Looping m ii" by simp_all
    with s have "\<forall>c\<in>set (assignedCells nprocs d p). called p m c \<in> T"
      using assms(7) by blast
    then show ?thesis by simp
  qed
qed

lemma winvD:
  assumes "winv nprocs d p ch w S T"
  shows "length ch \<le> 1"
    and "\<And>m. m \<in> set ch \<Longrightarrow> S m"
    and "\<And>m ii. w = Looping m ii \<Longrightarrow> S m"
    and "\<And>m ii m'. w = Looping m ii \<Longrightarrow> m' \<in> set ch \<Longrightarrow> keyLess m m'"
    and "\<And>m ii. w = Looping m ii \<Longrightarrow> ii mod nprocs = p"
    and "\<And>m ii c. w = Looping m ii \<Longrightarrow> c \<in> set (assignedCells nprocs d p) \<Longrightarrow> c < ii \<Longrightarrow>
           called p m c \<in> T"
    and "\<And>m c. S m \<Longrightarrow> m \<notin> set ch \<Longrightarrow> \<forall>ii. w \<noteq> Looping m ii \<Longrightarrow>
           c \<in> set (assignedCells nprocs d p) \<Longrightarrow> called p m c \<in> T"
proof -
  from assms have a: "length ch \<le> 1 \<and> (\<forall>m\<in>set ch. S m)"
    and b: "\<forall>m ii. w = Looping m ii \<longrightarrow>
         S m \<and> (\<forall>m'\<in>set ch. keyLess m m') \<and> ii mod nprocs = p \<and>
         (\<forall>c\<in>set (assignedCells nprocs d p). c < ii \<longrightarrow> called p m c \<in> T)"
    and c: "\<forall>m. S m \<longrightarrow> m \<in> set ch \<or> (\<exists>ii. w = Looping m ii) \<or>
         (\<forall>c\<in>set (assignedCells nprocs d p). called p m c \<in> T)"
    unfolding winv_def by simp_all
  from a show "length ch \<le> 1" by simp
  from a show "\<And>m. m \<in> set ch \<Longrightarrow> S m" by simp
  from b show "\<And>m ii. w = Looping m ii \<Longrightarrow> S m" by simp
  from b show "\<And>m ii m'. w = Looping m ii \<Longrightarrow> m' \<in> set ch \<Longrightarrow> keyLess m m'" by simp
  from b show "\<And>m ii. w = Looping m ii \<Longrightarrow> ii mod nprocs = p" by simp
  from b show "\<And>m ii c. w = Looping m ii \<Longrightarrow> c \<in> set (assignedCells nprocs d p) \<Longrightarrow>
      c < ii \<Longrightarrow> called p m c \<in> T" by simp
  show "called p m c \<in> T"
    if "S m" "m \<notin> set ch" "\<forall>ii. w \<noteq> Looping m ii" "c \<in> set (assignedCells nprocs d p)"
    for m c
  proof -
    from c that(1) have "m \<in> set ch \<or> (\<exists>ii. w = Looping m ii) \<or>
         (\<forall>c\<in>set (assignedCells nprocs d p). called p m c \<in> T)" by blast
    with that(2,3) have "\<forall>c\<in>set (assignedCells nprocs d p). called p m c \<in> T" by simp
    with that(4) show ?thesis by simp
  qed
qed

lemma winv_mono:
  assumes i: "winv nprocs d p ch w S T" and sub: "T \<subseteq> T'"
  shows "winv nprocs d p ch w S T'"
proof (rule winvI)
  show "length ch \<le> 1" by (rule winvD(1) [OF i])
  show "\<And>m. m \<in> set ch \<Longrightarrow> S m" by (rule winvD(2) [OF i])
  show "\<And>m ii. w = Looping m ii \<Longrightarrow> S m" by (rule winvD(3) [OF i])
  show "\<And>m ii m'. w = Looping m ii \<Longrightarrow> m' \<in> set ch \<Longrightarrow> keyLess m m'"
    by (rule winvD(4) [OF i])
  show "\<And>m ii. w = Looping m ii \<Longrightarrow> ii mod nprocs = p" by (rule winvD(5) [OF i])
  show "\<And>m ii c. w = Looping m ii \<Longrightarrow> c \<in> set (assignedCells nprocs d p) \<Longrightarrow> c < ii \<Longrightarrow>
           called p m c \<in> T'"
    using winvD(6) [OF i] sub by blast
  show "\<And>m c. S m \<Longrightarrow> m \<notin> set ch \<Longrightarrow> \<forall>ii. w \<noteq> Looping m ii \<Longrightarrow>
           c \<in> set (assignedCells nprocs d p) \<Longrightarrow> called p m c \<in> T'"
    using winvD(7) [OF i] sub by blast
qed

lemma winv_cong_sent:
  "winv nprocs d p ch w S T \<Longrightarrow> S' = S \<Longrightarrow> winv nprocs d p ch w S' T"
  by simp

lemma workerPhaseOrdered_append:
  "workerPhaseOrdered nprocs d before (tr @ [e]) \<longleftrightarrow>
     workerPhaseOrdered nprocs d before tr \<and>
     (func e = 0 \<or>
      list_all (\<lambda>c. \<lparr>procNum = procNum e, iter = iter e, func = func e - 1, cell = c\<rparr>
                      \<in> set (before @ tr)) (assignedCells nprocs d (procNum e)))"
  by (induction tr arbitrary: before) auto

lemma same_residue:
  assumes "c mod n = ii mod n" "ii \<le> c" "c < ii + n"
  shows "c = (ii::nat)"
proof -
  from assms(1,2) have "n dvd c - ii" by (simp add: mod_eq_dvd_iff_nat)
  moreover from assms(2,3) have "c - ii < n" by simp
  ultimately have "c - ii = 0" by (meson dvd_imp_le gr_zeroI not_le)
  with assms(2) show ?thesis by simp
qed

lemma assignedCells_iff:
  "c \<in> set (assignedCells nprocs d p) \<longleftrightarrow>
     c < length (Cells d) \<and> Layer (Cells d ! c) \<le> topLayerToCalc \<and> c mod nprocs = p"
  by (auto simp add: assignedCells_def activeCells_def)

lemma sentTo_Add: "sentTo (Sending 0 0) it p = sentTo Top it p"
  by (simp add: sentTo_def fun_eq_iff)

lemma sentTo_Book:
  "ma = Top \<or> ma = WaitCap \<or> ma = WaitCheck \<or> ma = Finished \<Longrightarrow>
     sentTo ma (Suc it) p = sentTo Bookkeeping it p"
  by (auto simp add: sentTo_def fun_eq_iff)

lemma sentTo_idle:
  "ma = Top \<or> ma = WaitCap \<or> ma = WaitCheck \<or> ma = Finished \<Longrightarrow>
   ma' = Top \<or> ma' = WaitCap \<or> ma' = WaitCheck \<or> ma' = Finished \<Longrightarrow>
     sentTo ma it p = sentTo ma' it p"
  by (auto simp add: sentTo_def fun_eq_iff)

lemma sentTo_pred: "sentTo ma it p (n, Suc k) \<Longrightarrow> sentTo ma it p (n, k)"
  by (auto simp add: sentTo_def split: mstate.splits)

lemma sentTo_Send:
  assumes "k < length scienceFuncs" "pp < nprocs" "p < nprocs"
  shows "sentTo (nextMain nprocs k pp) it p m \<longleftrightarrow>
           sentTo (Sending k pp) it p m \<or> (p = pp \<and> m = (it, k))"
  using assms by (cases m) (auto simp add: sentTo_def nextMain_def)

lemma sentTo_keyLess: "sentTo (Sending k pp) it pp m \<Longrightarrow> keyLess m (it, k)"
  by (auto simp add: sentTo_def keyLess_def)


lemma schedInvI:
  assumes "length (funcChan s) = nprocs" "length (workers s) = nprocs"
    and "\<And>p. p < nprocs \<Longrightarrow> winv nprocs d p (funcChan s ! p) (workers s ! p)
                    (sentTo (mainAt s) (iteration s) p) (set (trace s))"
    and "workerPhaseOrdered nprocs d [] (trace s)"
  shows "schedInv nprocs d s"
  unfolding schedInv_def using assms by simp

lemma schedInvD:
  assumes "schedInv nprocs d s"
  shows "length (funcChan s) = nprocs" "length (workers s) = nprocs"
    and "\<And>p. p < nprocs \<Longrightarrow> winv nprocs d p (funcChan s ! p) (workers s ! p)
                    (sentTo (mainAt s) (iteration s) p) (set (trace s))"
    and "workerPhaseOrdered nprocs d [] (trace s)"
  using assms unfolding schedInv_def by simp_all

lemma schedInv_main:
  assumes i: "schedInv nprocs d s"
    and c: "funcChan s' = funcChan s" "workers s' = workers s" "trace s' = trace s"
    and s: "\<And>p. p < nprocs \<Longrightarrow>
              sentTo (mainAt s') (iteration s') p = sentTo (mainAt s) (iteration s) p"
  shows "schedInv nprocs d s'"
proof (rule schedInvI)
  show "length (funcChan s') = nprocs" using schedInvD(1) [OF i] c by simp
  show "length (workers s') = nprocs" using schedInvD(2) [OF i] c by simp
  show "workerPhaseOrdered nprocs d [] (trace s')" using schedInvD(4) [OF i] c by simp
  show "winv nprocs d p (funcChan s' ! p) (workers s' ! p)
      (sentTo (mainAt s') (iteration s') p) (set (trace s'))" if "p < nprocs" for p
    using schedInvD(3) [OF i that] s [OF that] c by simp
qed

lemma inv_MainAdd:
  assumes i: "schedInv nprocs d s" and e: "exec nprocs d MainAdd s = Some s'"
  shows "schedInv nprocs d s'"
proof -
  from e have t: "mainAt s = Top"
    and s': "s' = s\<lparr>wg := wg s + int (length scienceFuncs * nprocs), mainAt := Sending 0 0\<rparr>"
    by (simp_all split: if_splits)
  show ?thesis
    by (rule schedInv_main [OF i]) (simp_all add: s' sentTo_Add t)
qed

lemma inv_MainBook:
  assumes i: "schedInv nprocs d s" and e: "exec nprocs d MainBook s = Some s'"
  shows "schedInv nprocs d s'"
proof -
  define ma where "ma = (if NumIterations d > 0
                              then (if int (Suc (iteration s)) \<ge> NumIterations d
                                    then WaitCap else Top)
                              else if timeSinceLastCheck s + Dt d \<ge> checkPeriod
                              then WaitCheck else Top)"
  from e have t: "mainAt s = Bookkeeping"
    and s': "s' = s\<lparr>iteration := Suc (iteration s),
                   timeSinceLastCheck := timeSinceLastCheck s + Dt d, mainAt := ma\<rparr>"
    by (simp_all add: ma_def split: if_splits)
  have m: "ma = Top \<or> ma = WaitCap \<or> ma = WaitCheck \<or> ma = Finished" by (simp add: ma_def)
  show ?thesis
    by (rule schedInv_main [OF i]) (simp_all add: s' sentTo_Book [OF m] t)
qed

lemma inv_MainWaitCap:
  assumes i: "schedInv nprocs d s" and e: "exec nprocs d MainWaitCap s = Some s'"
  shows "schedInv nprocs d s'"
proof -
  from e have t: "mainAt s = WaitCap" and s': "s' = s\<lparr>mainAt := Finished\<rparr>"
    by (simp_all split: if_splits)
  show ?thesis
    by (rule schedInv_main [OF i]) (simp_all add: s' t sentTo_idle [of Finished WaitCap])
qed

lemma inv_MainCheck:
  assumes i: "schedInv nprocs d s" and e: "exec nprocs d (MainCheck quit) s = Some s'"
  shows "schedInv nprocs d s'"
proof -
  define ma where "ma = (if quit then Finished else Top)"
  from e have t: "mainAt s = WaitCheck"
    and s': "s' = s\<lparr>timeSinceLastCheck := Fin 0, mainAt := ma\<rparr>"
    by (simp_all add: ma_def split: if_splits)
  have m: "ma = Top \<or> ma = WaitCap \<or> ma = WaitCheck \<or> ma = Finished" by (simp add: ma_def)
  show ?thesis
    by (rule schedInv_main [OF i]) (simp_all add: s' t sentTo_idle [OF m, of WaitCheck])
qed

lemma schedInv_step:
  assumes i: "schedInv nprocs d s"
    and len: "length (funcChan s') = nprocs" "length (workers s') = nprocs"
    and others: "\<And>p. p < nprocs \<Longrightarrow> p \<noteq> p0 \<Longrightarrow>
        funcChan s' ! p = funcChan s ! p \<and> workers s' ! p = workers s ! p \<and>
        sentTo (mainAt s') (iteration s') p = sentTo (mainAt s) (iteration s) p"
    and sub: "set (trace s) \<subseteq> set (trace s')"
    and own: "winv nprocs d p0 (funcChan s' ! p0) (workers s' ! p0)
        (sentTo (mainAt s') (iteration s') p0) (set (trace s'))"
    and w: "workerPhaseOrdered nprocs d [] (trace s')"
  shows "schedInv nprocs d s'"
proof (rule schedInvI [OF len _ w])
  fix p assume p: "p < nprocs"
  show "winv nprocs d p (funcChan s' ! p) (workers s' ! p)
      (sentTo (mainAt s') (iteration s') p) (set (trace s'))"
  proof (cases "p = p0")
    case True
    then show ?thesis using own by simp
  next
    case False
    from winv_mono [OF schedInvD(3) [OF i p] sub] others [OF p False]
    show ?thesis by simp
  qed
qed

lemma inv_MainSend:
  assumes i: "schedInv nprocs d s" and e: "exec nprocs d MainSend s = Some s'"
  shows "schedInv nprocs d s'"
proof -
  from e obtain k pp where t: "mainAt s = Sending k pp"
    by (cases "mainAt s") simp_all
  from e t have g: "k < length scienceFuncs" "pp < nprocs" "length (funcChan s ! pp) < 1"
    and s': "s' = s\<lparr>funcChan := (funcChan s)[pp := funcChan s ! pp @ [(iteration s, k)]],
                    mainAt := nextMain nprocs k pp\<rparr>"
    by (simp_all add: nextMain_def split: if_splits)
  from g(3) have empty: "funcChan s ! pp = []" by simp
  note l = schedInvD(1,2) [OF i]
  note old = schedInvD(3) [OF i g(2)]
  have c': "funcChan s' ! pp = [(iteration s, k)]" using l(1) g(2) by (simp add: s' empty)
  have w': "workers s' ! pp = workers s ! pp" by (simp add: s')
  have m': "mainAt s' = nextMain nprocs k pp" "iteration s' = iteration s" "trace s' = trace s"
    by (simp_all add: s')
  have S: "\<And>m. sentTo (mainAt s') (iteration s') pp m \<longleftrightarrow>
      sentTo (mainAt s) (iteration s) pp m \<or> m = (iteration s, k)"
    unfolding m' t using sentTo_Send [OF g(1) g(2) g(2)] by simp
  show ?thesis
  proof (rule schedInv_step [OF i, of s' pp])
    show "length (funcChan s') = nprocs" using l by (simp add: s')
    show "length (workers s') = nprocs" using l by (simp add: s')
    show "set (trace s) \<subseteq> set (trace s')" by (simp add: s')
    show "workerPhaseOrdered nprocs d [] (trace s')" using schedInvD(4) [OF i] by (simp add: s')
    show "funcChan s' ! p = funcChan s ! p \<and> workers s' ! p = workers s ! p \<and>
        sentTo (mainAt s') (iteration s') p = sentTo (mainAt s) (iteration s) p"
      if "p < nprocs" "p \<noteq> pp" for p
    proof -
      have "\<And>m. sentTo (nextMain nprocs k pp) (iteration s) p m =
          sentTo (Sending k pp) (iteration s) p m"
        using sentTo_Send [OF g(1) g(2) that(1)] that(2) by simp
      then have "sentTo (mainAt s') (iteration s') p = sentTo (mainAt s) (iteration s) p"
        unfolding m' t by (simp add: fun_eq_iff)
      then show ?thesis using that(2) by (simp add: s')
    qed
    show "winv nprocs d pp (funcChan s' ! pp) (workers s' ! pp)
        (sentTo (mainAt s') (iteration s') pp) (set (trace s'))"
      unfolding c' w' m'(3)
    proof (rule winvI)
      show "length [(iteration s, k)] \<le> 1" by simp
      show "sentTo (mainAt s') (iteration s') pp m" if "m \<in> set [(iteration s, k)]" for m
        using that S by simp
      show "sentTo (mainAt s') (iteration s') pp m" if "workers s ! pp = Looping m ii" for m ii
        using winvD(3) [OF old that] S by simp
      show "keyLess m m'" if "workers s ! pp = Looping m ii" "m' \<in> set [(iteration s, k)]"
        for m ii m'
        using winvD(3) [OF old that(1)] that(2) sentTo_keyLess [of k pp "iteration s" m]
        unfolding t by simp
      show "ii mod nprocs = pp" if "workers s ! pp = Looping m ii" for m ii
        by (rule winvD(5) [OF old that])
      show "called pp m c \<in> set (trace s)"
        if "workers s ! pp = Looping m ii" "c \<in> set (assignedCells nprocs d pp)" "c < ii"
        for m ii c
        by (rule winvD(6) [OF old that])
      show "called pp m c \<in> set (trace s)"
        if "sentTo (mainAt s') (iteration s') pp m" "m \<notin> set [(iteration s, k)]"
          "\<forall>ii. workers s ! pp \<noteq> Looping m ii" "c \<in> set (assignedCells nprocs d pp)"
        for m c
      proof -
        from that(1,2) S have "sentTo (mainAt s) (iteration s) pp m" by simp
        moreover have "m \<notin> set (funcChan s ! pp)" by (simp add: empty)
        ultimately show ?thesis using that(3,4) by (rule winvD(7) [OF old])
      qed
    qed
  qed
qed

lemma inv_Recv:
  assumes i: "schedInv nprocs d s" and e: "exec nprocs d (Recv p0) s = Some s'"
  shows "schedInv nprocs d s'"
proof -
  from e have p0: "p0 < nprocs" and r: "workers s ! p0 = Receiving"
    by (simp_all split: if_splits)
  from e p0 r obtain m0 rest where ch: "funcChan s ! p0 = m0 # rest"
    by (cases "funcChan s ! p0") simp_all
  from e p0 r ch have s': "s' = s\<lparr>funcChan := (funcChan s)[p0 := rest],
                        workers := (workers s)[p0 := Looping m0 p0]\<rparr>"
    by simp
  note l = schedInvD(1,2) [OF i]
  note old = schedInvD(3) [OF i p0]
  from winvD(1) [OF old] ch have rest: "rest = []" by simp
  have c': "funcChan s' ! p0 = []" using l p0 by (simp add: s' rest)
  have w': "workers s' ! p0 = Looping m0 p0" using l p0 by (simp add: s')
  have m': "mainAt s' = mainAt s" "iteration s' = iteration s" "trace s' = trace s"
    by (simp_all add: s')
  show ?thesis
  proof (rule schedInv_step [OF i, of s' p0])
    show "length (funcChan s') = nprocs" using l by (simp add: s')
    show "length (workers s') = nprocs" using l by (simp add: s')
    show "set (trace s) \<subseteq> set (trace s')" by (simp add: s')
    show "workerPhaseOrdered nprocs d [] (trace s')" using schedInvD(4) [OF i] by (simp add: s')
    show "funcChan s' ! p = funcChan s ! p \<and> workers s' ! p = workers s ! p \<and>
        sentTo (mainAt s') (iteration s') p = sentTo (mainAt s) (iteration s) p"
      if "p < nprocs" "p \<noteq> p0" for p
      using that(2) by (simp add: s')
    show "winv nprocs d p0 (funcChan s' ! p0) (workers s' ! p0)
        (sentTo (mainAt s') (iteration s') p0) (set (trace s'))"
      unfolding c' w' m'
    proof (rule winvI)
      show "length ([]::msg list) \<le> 1" by simp
      show "sentTo (mainAt s) (iteration s) p0 m" if "m \<in> set []" for m
        using that by simp
      show "sentTo (mainAt s) (iteration s) p0 m" if "Looping m0 p0 = Looping m ii" for m ii
        using that winvD(2) [OF old, of m0] ch by simp
      show "keyLess m m'" if "Looping m0 p0 = Looping m ii" "m' \<in> set []" for m ii m'
        using that(2) by simp
      show "ii mod nprocs = p0" if "Looping m0 p0 = Looping m ii" for m ii
        using that p0 by simp
      show "called p0 m c \<in> set (trace s)"
        if "Looping m0 p0 = Looping m ii" "c \<in> set (assignedCells nprocs d p0)" "c < ii"
        for m ii c
      proof -
        from that(2) have "c mod nprocs = p0" by (simp add: assignedCells_iff)
        then have "p0 \<le> c" using mod_less_eq_dividend [of c nprocs] by simp
        with that(1,3) show ?thesis by simp
      qed
      show "called p0 m c \<in> set (trace s)"
        if "sentTo (mainAt s) (iteration s) p0 m" "m \<notin> set []"
          "\<forall>ii. Looping m0 p0 \<noteq> Looping m ii" "c \<in> set (assignedCells nprocs d p0)"
        for m c
      proof -
        from that(3) have "m \<noteq> m0" by simp
        then have "m \<notin> set (funcChan s ! p0)" by (simp add: ch rest)
        moreover have "\<forall>ii. workers s ! p0 \<noteq> Looping m ii" by (simp add: r)
        ultimately show ?thesis using that(1,4) winvD(7) [OF old] by blast
      qed
    qed
  qed
qed

lemma inv_Done:
  assumes i: "schedInv nprocs d s" and e: "exec nprocs d (Done p0) s = Some s'"
  shows "schedInv nprocs d s'"
proof -
  from e have p0: "p0 < nprocs" by (simp split: if_splits)
  from e p0 obtain m0 ii0 where r: "workers s ! p0 = Looping m0 ii0"
    by (cases "workers s ! p0") simp_all
  from e p0 r have g: "\<not> ii0 < length (Cells d)"
    and s': "s' = s\<lparr>workers := (workers s)[p0 := Receiving], wg := wg s - 1\<rparr>"
    by (simp_all split: if_splits)
  note l = schedInvD(1,2) [OF i]
  note old = schedInvD(3) [OF i p0]
  have c': "funcChan s' ! p0 = funcChan s ! p0" by (simp add: s')
  have w': "workers s' ! p0 = Receiving" using l p0 by (simp add: s')
  have m': "mainAt s' = mainAt s" "iteration s' = iteration s" "trace s' = trace s"
    by (simp_all add: s')
  show ?thesis
  proof (rule schedInv_step [OF i, of s' p0])
    show "length (funcChan s') = nprocs" using l by (simp add: s')
    show "length (workers s') = nprocs" using l by (simp add: s')
    show "set (trace s) \<subseteq> set (trace s')" by (simp add: s')
    show "workerPhaseOrdered nprocs d [] (trace s')" using schedInvD(4) [OF i] by (simp add: s')
    show "funcChan s' ! p = funcChan s ! p \<and> workers s' ! p = workers s ! p \<and>
        sentTo (mainAt s') (iteration s') p = sentTo (mainAt s) (iteration s) p"
      if "p < nprocs" "p \<noteq> p0" for p
      using that(2) by (simp add: s')
    show "winv nprocs d p0 (funcChan s' ! p0) (workers s' ! p0)
        (sentTo (mainAt s') (iteration s') p0) (set (trace s'))"
      unfolding c' w' m'
    proof (rule winvI)
      show "length (funcChan s ! p0) \<le> 1" by (rule winvD(1) [OF old])
      show "sentTo (mainAt s) (iteration s) p0 m" if "m \<in> set (funcChan s ! p0)" for m
        by (rule winvD(2) [OF old that])
      show "sentTo (mainAt s) (iteration s) p0 m" if "Receiving = Looping m ii" for m ii
        using that by simp
      show "keyLess m m'" if "Receiving = Looping m ii" "m' \<in> set (funcChan s ! p0)"
        for m ii m'
        using that(1) by simp
      show "ii mod nprocs = p0" if "Receiving = Looping m ii" for m ii
        using that by simp
      show "called p0 m c \<in> set (trace s)"
        if "Receiving = Looping m ii" "c \<in> set (assignedCells nprocs d p0)" "c < ii"
        for m ii c
        using that(1) by simp
      show "called p0 m c \<in> set (trace s)"
        if "sentTo (mainAt s) (iteration s) p0 m" "m \<notin> set (funcChan s ! p0)"
          "\<forall>ii. Receiving \<noteq> Looping m ii" "c \<in> set (assignedCells nprocs d p0)"
        for m c
      proof (cases "m = m0")
        case True
        from that(4) have "c < length (Cells d)" by (simp add: assignedCells_iff)
        with g have "c < ii0" by simp
        from winvD(6) [OF old r that(4) this] True show ?thesis by simp
      next
        case False
        then have "\<forall>ii. workers s ! p0 \<noteq> Looping m ii" by (simp add: r)
        with that(1,2,4) show ?thesis using winvD(7) [OF old] by blast
      qed
    qed
  qed
qed

lemma inv_Apply:
  assumes i: "schedInv nprocs d s" and e: "exec nprocs d (Apply p0) s = Some s'"
  shows "schedInv nprocs d s'"
proof -
  from e have p0: "p0 < nprocs" by (simp split: if_splits)
  from e p0 obtain m0 ii0 where r: "workers s ! p0 = Looping m0 ii0"
    by (cases "workers s ! p0") simp_all
  define new where "new = (if Layer (Cells d ! ii0) \<le> topLayerToCalc
                           then [called p0 m0 ii0] else [])"
  from e p0 r have g: "ii0 < length (Cells d)"
    and s': "s' = s\<lparr>workers := (workers s)[p0 := Looping m0 (ii0 + nprocs)],
                     trace := trace s @ new\<rparr>"
    by (simp_all add: new_def called_def split: if_splits)
  note l = schedInvD(1,2) [OF i]
  note old = schedInvD(3) [OF i p0]
  have c': "funcChan s' ! p0 = funcChan s ! p0" by (simp add: s')
  have w': "workers s' ! p0 = Looping m0 (ii0 + nprocs)" using l p0 by (simp add: s')
  have m': "mainAt s' = mainAt s" "iteration s' = iteration s" by (simp_all add: s')
  have tr: "trace s' = trace s @ new" by (simp add: s')
  have sub: "set (trace s) \<subseteq> set (trace s')" by (simp add: tr)
  have sent0: "sentTo (mainAt s) (iteration s) p0 m0" by (rule winvD(3) [OF old r])
  have res: "ii0 mod nprocs = p0" by (rule winvD(5) [OF old r])
  have prev: "called p0 (fst m0, k) c \<in> set (trace s)"
    if "snd m0 = Suc k" "c \<in> set (assignedCells nprocs d p0)" for k c
  proof -
    from sent0 that(1) have "sentTo (mainAt s) (iteration s) p0 (fst m0, Suc k)"
      by (metis prod.collapse)
    then have a: "sentTo (mainAt s) (iteration s) p0 (fst m0, k)" by (rule sentTo_pred)
    have b: "(fst m0, k) \<notin> set (funcChan s ! p0)"
    proof
      assume "(fst m0, k) \<in> set (funcChan s ! p0)"
      from winvD(4) [OF old r this] that(1) show False by (simp add: keyLess_def)
    qed
    have "m0 \<noteq> (fst m0, k)" using that(1) by (cases m0) simp
    then have c: "\<forall>ii. workers s ! p0 \<noteq> Looping (fst m0, k) ii" by (simp add: r)
    from winvD(7) [OF old a b c that(2)] show ?thesis .
  qed
  have wpo: "workerPhaseOrdered nprocs d [] (trace s')"
  proof (cases "new = []")
    case True
    then show ?thesis using schedInvD(4) [OF i] by (simp add: tr)
  next
    case False
    then have n: "new = [called p0 m0 ii0]" by (simp add: new_def split: if_splits)
    have "func (called p0 m0 ii0) = 0 \<or>
      list_all (\<lambda>c. \<lparr>procNum = procNum (called p0 m0 ii0), iter = iter (called p0 m0 ii0),
                      func = func (called p0 m0 ii0) - 1, cell = c\<rparr> \<in> set ([] @ trace s))
        (assignedCells nprocs d (procNum (called p0 m0 ii0)))"
    proof (cases "snd m0")
      case 0
      then show ?thesis by (simp add: called_def)
    next
      case (Suc k)
      from prev [OF Suc] have "\<forall>c\<in>set (assignedCells nprocs d p0).
          \<lparr>procNum = p0, iter = fst m0, func = k, cell = c\<rparr> \<in> set (trace s)"
        by (simp add: called_def)
      then show ?thesis by (simp add: called_def Suc list_all_iff)
    qed
    with schedInvD(4) [OF i] show ?thesis
      unfolding tr n workerPhaseOrdered_append by simp
  qed
  show ?thesis
  proof (rule schedInv_step [OF i _ _ _ sub _ wpo, of p0])
    show "length (funcChan s') = nprocs" using l by (simp add: s')
    show "length (workers s') = nprocs" using l by (simp add: s')
    show "funcChan s' ! p = funcChan s ! p \<and> workers s' ! p = workers s ! p \<and>
        sentTo (mainAt s') (iteration s') p = sentTo (mainAt s) (iteration s) p"
      if "p < nprocs" "p \<noteq> p0" for p
      using that(2) by (simp add: s')
    show "winv nprocs d p0 (funcChan s' ! p0) (workers s' ! p0)
        (sentTo (mainAt s') (iteration s') p0) (set (trace s'))"
      unfolding c' w' m'
    proof (rule winvI)
      show "length (funcChan s ! p0) \<le> 1" by (rule winvD(1) [OF old])
      show "sentTo (mainAt s) (iteration s) p0 m" if "m \<in> set (funcChan s ! p0)" for m
        by (rule winvD(2) [OF old that])
      show "sentTo (mainAt s) (iteration s) p0 m"
        if "Looping m0 (ii0 + nprocs) = Looping m ii" for m ii
        using that sent0 by simp
      show "keyLess m m'"
        if "Looping m0 (ii0 + nprocs) = Looping m ii" "m' \<in> set (funcChan s ! p0)"
        for m ii m'
        using that(1) winvD(4) [OF old r that(2)] by simp
      show "ii mod nprocs = p0" if "Looping m0 (ii0 + nprocs) = Looping m ii" for m ii
        using that res by auto
      show "called p0 m c \<in> set (trace s')"
        if "Looping m0 (ii0 + nprocs) = Looping m ii" "c \<in> set (assignedCells nprocs d p0)"
          "c < ii"
        for m ii c
      proof (cases "c < ii0")
        case True
        from winvD(6) [OF old r that(2) True] sub that(1) show ?thesis by auto
      next
        case False
        from that(2) have a: "c mod nprocs = p0" "Layer (Cells d ! c) \<le> topLayerToCalc"
          by (simp_all add: assignedCells_iff)
        from that(1,3) have "c < ii0 + nprocs" by simp
        with False a(1) res have "c = ii0" by (intro same_residue [of c nprocs ii0]) simp_all
        with a(2) have "called p0 m0 c \<in> set new" by (simp add: new_def)
        with that(1) show ?thesis by (simp add: tr)
      qed
      show "called p0 m c \<in> set (trace s')"
        if "sentTo (mainAt s) (iteration s) p0 m" "m \<notin> set (funcChan s ! p0)"
          "\<forall>ii. Looping m0 (ii0 + nprocs) \<noteq> Looping m ii"
          "c \<in> set (assignedCells nprocs d p0)"
        for m c
      proof -
        from that(3) have "m \<noteq> m0" by simp
        then have "\<forall>ii. workers s ! p0 \<noteq> Looping m ii" by (simp add: r)
        from winvD(7) [OF old that(1,2) this that(4)] sub show ?thesis by blast
      qed
    qed
  qed
qed

lemma exec_schedInv:
  "schedInv nprocs d s \<Longrightarrow> exec nprocs d a s = Some s' \<Longrightarrow> schedInv nprocs d s'"
  by (cases a)
     (blast intro: inv_MainAdd inv_MainSend inv_MainBook inv_MainWaitCap inv_MainCheck
        inv_Recv inv_Apply inv_Done)+

lemma runSched_schedInv:
  "schedInv nprocs d s \<Longrightarrow> runSched nprocs d acts s = Some s' \<Longrightarrow> schedInv nprocs d s'"
proof (induction acts arbitrary: s)
  case Nil
  then show ?case by simp
next
  case (Cons a acts)
  from Cons.prems(2) obtain s1 where s1: "exec nprocs d a s = Some s1"
    "runSched nprocs d acts s1 = Some s'"
    by (cases "exec nprocs d a s") simp_all
  from Cons.IH [OF exec_schedInv [OF Cons.prems(1) s1(1)] s1(2)] show ?case .
qed

lemma initSched_schedInv: "schedInv nprocs d (initSched nprocs)"
proof (rule schedInvI)
  show "length (funcChan (initSched nprocs)) = nprocs" by (simp add: initSched_def)
  show "length (workers (initSched nprocs)) = nprocs" by (simp add: initSched_def)
  show "workerPhaseOrdered nprocs d [] (trace (initSched nprocs))" by (simp add: initSched_def)
  show "winv nprocs d p (funcChan (initSched nprocs) ! p) (workers (initSched nprocs) ! p)
     (sentTo (mainAt (initSched nprocs)) (iteration (initSched nprocs)) p)
     (set (trace (initSched nprocs)))" if "p < nprocs" for p
    using that by (simp add: initSched_def winv_def sentTo_def)
qed

lemma eagerWorker_run:
  "runSched 2 (domainOf [groundCell, groundCell]) eagerWorker (initSched 2) =
    Some \<lparr>funcChan = [[], [(0, 0)]], workers = [Looping (0, 1) 2, Receiving],
      mainAt = Sending 1 1, wg = 3, iteration = 0, timeSinceLastCheck = Fin 0,
      trace = [\<lparr>procNum = 0, iter = 0, func = 0, cell = 0\<rparr>,
               \<lparr>procNum = 0, iter = 0, func = 1, cell = 0\<rparr>]\<rparr>"
  by (simp add: eagerWorker_def initSched_def scienceFuncs_def domainOf_def groundCell_def
      windyCell_def newCell_def topLayerToCalc_def numeral_2_eq_2)

lemma activeCells_two: "activeCells (domainOf [groundCell, groundCell]) = [0, 1]"
  by (simp add: activeCells_def domainOf_def groundCell_def windyCell_def newCell_def
      topLayerToCalc_def upt_rec [of 0] upt_rec [of 1] upt_rec [of 2])

text \<open>
  Claim C2, as stated: within every iteration, every worker finishes applying science
  function \<open>k\<close> to all of its cells before any worker begins applying function \<open>k + 1\<close>
  to any cell. Nothing in the loop enforces this: the main thread sends function
  \<open>k + 1\<close> to a worker as soon as that worker's channel has room, and \<open>wg.Wait\<close> is only
  called before leaving the loop or checking convergence. With two workers and two
  cells, worker 0 applies both functions to cell 0 before worker 1 has received the
  first: the second call is made while cell 1 has not seen function 0.
\<close>

theorem scheduler_no_barrier_counterexample:
  "runSched 2 (domainOf [groundCell, groundCell]) eagerWorker (initSched 2) =
    Some \<lparr>funcChan = [[], [(0, 0)]], workers = [Looping (0, 1) 2, Receiving],
      mainAt = Sending 1 1, wg = 3, iteration = 0, timeSinceLastCheck = Fin 0,
      trace = [\<lparr>procNum = 0, iter = 0, func = 0, cell = 0\<rparr>,
               \<lparr>procNum = 0, iter = 0, func = 1, cell = 0\<rparr>]\<rparr> \<and>
   \<not> phaseOrdered 2 (domainOf [groundCell, groundCell]) []
       [\<lparr>procNum = 0, iter = 0, func = 0, cell = 0\<rparr>,
        \<lparr>procNum = 0, iter = 0, func = 1, cell = 0\<rparr>]"
  using eagerWorker_run by (simp add: activeCells_two)

text \<open>
  Claim C2, amended: within every iteration, every worker finishes applying science
  function \<open>k\<close> to all of the cells it visits before that same worker begins applying
  function \<open>k + 1\<close> to any of them. This holds in every configuration that the main
  thread and the workers can reach, under every interleaving.
\<close>

theorem scheduler_worker_phase_order:
  assumes "runSched nprocs d acts (initSched nprocs) = Some s"
  shows "workerPhaseOrdered nprocs d [] (trace s)"
  using schedInvD(4) [OF runSched_schedInv [OF initSched_schedInv assms]] .

theorem scheduler_worker_phase_order_witness:
  "runSched 2 (domainOf [groundCell, groundCell]) eagerWorker (initSched 2) =
    Some \<lparr>funcChan = [[], [(0, 0)]], workers = [Looping (0, 1) 2, Receiving],
      mainAt = Sending 1 1, wg = 3, iteration = 0, timeSinceLastCheck = Fin 0,
      trace = [\<lparr>procNum = 0, iter = 0, func = 0, cell = 0\<rparr>,
               \<lparr>procNum = 0, iter = 0, func = 1, cell = 0\<rparr>]\<rparr> \<and>
   workerPhaseOrdered 2 (domainOf [groundCell, groundCell]) []
       [\<lparr>procNum = 0, iter = 0, func = 0, cell = 0\<rparr>,
        \<lparr>procNum = 0, iter = 0, func = 1, cell = 0\<rparr>]"
  using scheduler_worker_phase_order [OF eagerWorker_run] eagerWorker_run by simp

end
